theory Spec2Isabelle
  imports Complex_Main "HOL-Library.Word" "HOL-Library.Multiset"
begin

unbundle bit_operations_syntax

section \<open>Data model of \<open>lshbox::laItqLsh\<close>\<close>

text \<open>
  The class \<open>laItqLsh\<close> of \<open>laitqlsh.h\<close> is embedded shallowly, at its default
  \<open>DATATYPE = float\<close>. C++ \<open>unsigned\<close> is a 32-bit word, so that \<open>hashVal *= 2\<close> wraps
  as it does in the source. A \<open>float\<close> holds a real number. The products and sums
  of the hasher are taken exactly: what is proved of the projections depends on them only
  through their sign tests, their absolute values and their order. The one sum of floats
  whose rounding decides a result, the loss that \<open>queryRankingByLoss\<close> accumulates, is
  taken with the single-precision addition, which the strategy has as a parameter.

  A \<open>std::map<unsigned, std::vector<unsigned>>\<close> is an association list whose keys are
  strictly increasing, which is the order in which the source iterates over a map.
  Undefined behaviour of the source (a subscript out of range, a read past the end of the
  file), a size that \<open>resize\<close> refuses and a failing \<open>assert\<close> are values of the type
  \<open>error\<close>.

  \<open>train\<close>, \<open>reset\<close> and \<open>getMeanAndSTD\<close> (eigen-decomposition, singular values,
  time-seeded random numbers) are not embedded: the matrices an index holds are data of
  the model, and \<open>trained\<close> below states the shape \<open>train\<close> gives them.
\<close>

type_synonym u32 = "32 word"
type_synonym float = real
type_synonym bucket_map = "(u32 \<times> u32 list) list"

datatype error = AssertionFailed | OutOfBounds | LengthError | ReadPastEnd | Misparse

record Parameter =
  M :: u32
  L :: u32
  D :: u32
  N :: u32
  S :: u32
  I :: u32

record laItqLsh =
  param :: Parameter
  pcsAll :: "float list list list"
  omegasAll :: "float list list list"
  rndArray :: "u32 list list"
  tables :: "bucket_map list"

section \<open>Hasher\<close>

text \<open>
  The accumulation \<open>acc += x[j] * row[j]\<close> for \<open>j\<close> from 0 to \<open>row.size()\<close>, which
  both loops of \<open>getHashVal\<close> and \<open>getHashFloats\<close> run, starting from 0.
\<close>

definition dot :: "float list \<Rightarrow> float list \<Rightarrow> float" where
  "dot x row = foldl (\<lambda>acc j. acc + x ! j * row ! j) 0 [0..<length row]"

text \<open>The first loop of both functions: \<open>domin_pc[i]\<close> for every row of \<open>pcsAll[k]\<close>.\<close>

definition domin_pc :: "float list list \<Rightarrow> float list \<Rightarrow> float list" where
  "domin_pc pcs domin = map (dot domin) pcs"

text \<open>
  Every subscript of the two loops is in range: table \<open>k\<close> exists, \<open>domin\<close> has an entry
  for every column of a projection row, \<open>omegasAll[k]\<close> has a row for every \<open>i\<close> below
  \<open>domin_pc.size()\<close>, and such a row is no longer than \<open>domin_pc\<close>.
\<close>

definition hash_in_range :: "laItqLsh \<Rightarrow> nat \<Rightarrow> float list \<Rightarrow> bool" where
  "hash_in_range idx k domin \<longleftrightarrow>
     k < length (pcsAll idx) \<and> k < length (omegasAll idx) \<and>
     list_all (\<lambda>row. length row \<le> length domin) (pcsAll idx ! k) \<and>
     length (pcsAll idx ! k) \<le> length (omegasAll idx ! k) \<and>
     list_all (\<lambda>row. length row \<le> length (pcsAll idx ! k))
       (take (length (pcsAll idx ! k)) (omegasAll idx ! k))"

text \<open>
  \<open>getHashVal\<close>: \<open>hashVal *= 2; if (product > 0) hashVal += 1\<close> for every \<open>i\<close> below
  \<open>domin_pc.size()\<close>.
\<close>

definition getHashVal_loop :: "float list list \<Rightarrow> float list \<Rightarrow> u32" where
  "getHashVal_loop omegas dpc =
     foldl (\<lambda>hashVal i.
              let product = dot dpc (omegas ! i)
              in (if product > 0 then hashVal * 2 + 1 else hashVal * 2))
       0 [0..<length dpc]"

definition getHashVal :: "laItqLsh \<Rightarrow> nat \<Rightarrow> float list \<Rightarrow> error + u32" where
  "getHashVal idx k domin =
     (if hash_in_range idx k domin
      then Inr (getHashVal_loop (omegasAll idx ! k) (domin_pc (pcsAll idx ! k) domin))
      else Inl OutOfBounds)"

text \<open>\<open>getHashFloats\<close>: the same products, stored instead of tested.\<close>

definition getHashFloats_loop :: "float list list \<Rightarrow> float list \<Rightarrow> float list" where
  "getHashFloats_loop omegas dpc = map (\<lambda>i. dot dpc (omegas ! i)) [0..<length dpc]"

definition getHashFloats :: "laItqLsh \<Rightarrow> nat \<Rightarrow> float list \<Rightarrow> error + float list" where
  "getHashFloats idx k domin =
     (if hash_in_range idx k domin
      then Inr (getHashFloats_loop (omegasAll idx ! k) (domin_pc (pcsAll idx ! k) domin))
      else Inl OutOfBounds)"

text \<open>\<open>quantization\<close>: \<open>hashBits[i] = (hashFloats[i] >= 0)\<close>.\<close>

definition quantization :: "float list \<Rightarrow> bool list" where
  "quantization hashFloats = map (\<lambda>f. f \<ge> 0) hashFloats"

definition getHashBits :: "laItqLsh \<Rightarrow> nat \<Rightarrow> float list \<Rightarrow> error + bool list" where
  "getHashBits idx k domin =
     (case getHashFloats idx k domin of
        Inl e \<Rightarrow> Inl e
      | Inr hashFloats \<Rightarrow> Inr (quantization hashFloats))"

text \<open>
  The packing the specification describes: the bits of a vector read as a binary numeral,
  the first bit being the highest-order one, in an \<open>unsigned\<close>.
\<close>

definition pack_msb_first :: "bool list \<Rightarrow> u32" where
  "pack_msb_first bits = foldl (\<lambda>h b. h * 2 + (if b then 1 else 0)) 0 bits"

section \<open>Bucket index\<close>

subsection \<open>\<open>std::map\<close> and \<open>std::vector\<close>\<close>

text \<open>\<open>m[code].push_back(key)\<close>: the entry is created, in key order, when it is missing.\<close>

fun map_push_back :: "u32 \<Rightarrow> u32 \<Rightarrow> bucket_map \<Rightarrow> bucket_map" where
  "map_push_back code key [] = [(code, [key])]"
| "map_push_back code key ((c, ids) # m) =
     (if code < c then (code, [key]) # (c, ids) # m
      else if code = c then (c, ids @ [key]) # m
      else (c, ids) # map_push_back code key m)"

text \<open>\<open>m[code] = ids\<close>: the entry is created or overwritten.\<close>

fun map_assign :: "u32 \<Rightarrow> u32 list \<Rightarrow> bucket_map \<Rightarrow> bucket_map" where
  "map_assign code v [] = [(code, v)]"
| "map_assign code v ((c, ids) # m) =
     (if code < c then (code, v) # (c, ids) # m
      else if code = c then (c, v) # m
      else (c, ids) # map_assign code v m)"

text \<open>The invariant of a \<open>std::map\<close>: the keys are strictly increasing.\<close>

definition sorted_map :: "bucket_map \<Rightarrow> bool" where
  "sorted_map m \<longleftrightarrow> sorted_wrt (<) (map fst m)"

text \<open>The identifiers stored under a code; none when \<open>find\<close> returns \<open>end()\<close>.\<close>

definition bucket_of :: "bucket_map \<Rightarrow> u32 \<Rightarrow> u32 list" where
  "bucket_of m code = (case map_of m code of None \<Rightarrow> [] | Some ids \<Rightarrow> ids)"

text \<open>\<open>v.resize(n)\<close>: the first \<open>n\<close> elements are kept, new ones are value-initialised.\<close>

definition resize :: "nat \<Rightarrow> 'a \<Rightarrow> 'a list \<Rightarrow> 'a list" where
  "resize n d xs = take n xs @ replicate (n - length xs) d"

subsection \<open>\<open>insert\<close> and \<open>hash\<close>\<close>

text \<open>
  \<open>insert\<close>: for every \<open>k\<close> below \<open>param.L\<close>,
  \<open>tables[k][getHashVal(k, domin)].push_back(key)\<close>.
\<close>

fun insert_loop :: "laItqLsh \<Rightarrow> u32 \<Rightarrow> float list \<Rightarrow> nat list \<Rightarrow> error + laItqLsh" where
  "insert_loop idx key domin [] = Inr idx"
| "insert_loop idx key domin (k # ks) =
     (case getHashVal idx k domin of
        Inl e \<Rightarrow> Inl e
      | Inr hashVal \<Rightarrow>
          if k < length (tables idx)
          then insert_loop
                 (idx\<lparr>tables := (tables idx)[k := map_push_back hashVal key (tables idx ! k)]\<rparr>)
                 key domin ks
          else Inl OutOfBounds)"

definition insert_idx :: "laItqLsh \<Rightarrow> u32 \<Rightarrow> float list \<Rightarrow> error + laItqLsh" where
  "insert_idx idx key domin = insert_loop idx key domin [0..<unat (L (param idx))]"

text \<open>\<open>hash\<close>: \<open>insert(i, data[i])\<close> for every row \<open>i\<close> of the dataset, in order.\<close>

fun hash_loop :: "laItqLsh \<Rightarrow> float list list \<Rightarrow> nat \<Rightarrow> error + laItqLsh" where
  "hash_loop idx [] i = Inr idx"
| "hash_loop idx (domin # rest) i =
     (case insert_idx idx (of_nat i) domin of
        Inl e \<Rightarrow> Inl e
      | Inr idx' \<Rightarrow> hash_loop idx' rest (Suc i))"

definition hash :: "laItqLsh \<Rightarrow> float list list \<Rightarrow> error + laItqLsh" where
  "hash idx data = hash_loop idx data 0"

text \<open>A sequence of \<open>insert(key, vector)\<close> calls made by a client.\<close>

fun inserts :: "laItqLsh \<Rightarrow> (u32 \<times> float list) list \<Rightarrow> error + laItqLsh" where
  "inserts idx [] = Inr idx"
| "inserts idx ((key, domin) # rest) =
     (case insert_idx idx key domin of
        Inl e \<Rightarrow> Inl e
      | Inr idx' \<Rightarrow> inserts idx' rest)"

text \<open>
  What \<open>train\<close> leaves behind: for each of the \<open>L\<close> tables an \<open>N x D\<close> projection and
  an \<open>N x N\<close> rotation matrix (\<open>omegasAll[k].resize(npca)\<close>, \<open>pcsAll[k][i].resize(param.D)\<close>).
\<close>

definition trained :: "laItqLsh \<Rightarrow> bool" where
  "trained idx \<longleftrightarrow>
     length (pcsAll idx) = unat (L (param idx)) \<and>
     length (omegasAll idx) = unat (L (param idx)) \<and>
     list_all (\<lambda>pcs. length pcs = unat (N (param idx)) \<and>
                 list_all (\<lambda>row. length row = unat (D (param idx))) pcs) (pcsAll idx) \<and>
     list_all (\<lambda>omegas. length omegas = unat (N (param idx)) \<and>
                 list_all (\<lambda>row. length row = unat (N (param idx))) omegas) (omegasAll idx)"

text \<open>Every code stored as a key of a table is below \<open>2 ^ N\<close>.\<close>

definition codes_bounded :: "laItqLsh \<Rightarrow> bool" where
  "codes_bounded idx \<longleftrightarrow>
     list_all (\<lambda>m. list_all (\<lambda>(code, ids). unat code < 2 ^ unat (N (param idx))) m) (tables idx)"

text \<open>The state in which \<open>insert\<close> runs and which it keeps.\<close>

definition insert_inv :: "laItqLsh \<Rightarrow> bool" where
  "insert_inv idx \<longleftrightarrow>
     trained idx \<and> unat (L (param idx)) \<le> length (tables idx) \<and> codes_bounded idx"

section \<open>Bucket codes as bit vectors\<close>

text \<open>
  \<open>unsignedToBools\<close>: \<open>int nBits = param.N; bits.resize(nBits);
  while (num > 0) { bits[--nBits] = num % 2; num /= 2; }\<close>. A write at a subscript outside
  the vector is \<open>OutOfBounds\<close>. An \<open>N\<close> of \<open>2 ^ 31\<close> or more is a negative \<open>int\<close>, which
  \<open>resize\<close> refuses (\<open>LengthError\<close>).
\<close>

function unsignedToBools_loop :: "bool list \<Rightarrow> int \<Rightarrow> u32 \<Rightarrow> error + bool list" where
  "unsignedToBools_loop bits nBits num =
     (if num > 0
      then (if 0 \<le> nBits - 1 \<and> nat (nBits - 1) < length bits
            then unsignedToBools_loop (bits[nat (nBits - 1) := (num mod 2 \<noteq> 0)]) (nBits - 1) (num div 2)
            else Inl OutOfBounds)
      else Inr bits)"
  by pat_completeness auto
termination
  apply (relation "measure (\<lambda>(bits, nBits, num). unat num)")
   apply simp
  apply (simp add: unat_div word_greater_zero_iff unat_gt_0)
  done

declare unsignedToBools_loop.simps [simp del]

definition unsignedToBools :: "laItqLsh \<Rightarrow> u32 \<Rightarrow> error + bool list" where
  "unsignedToBools idx num =
     (let nBits = sint (N (param idx))
      in if nBits < 0 then Inl LengthError
         else unsignedToBools_loop (replicate (nat nBits) False) nBits num)"

text \<open>The value of a bit vector read as a binary numeral, the first bit being the highest.\<close>

definition msb_first_value :: "bool list \<Rightarrow> nat" where
  "msb_first_value bits = foldl (\<lambda>v b. 2 * v + (if b then 1 else 0)) 0 bits"

section \<open>Query engine\<close>

text \<open>
  The scanner is an external collaborator. Of a scanner the model keeps the identifiers it
  was fed through \<open>scanner(*iter)\<close>, in order, and, to state in which order a strategy
  visits buckets, the bucket codes \<open>probe\<close> was called with.
\<close>

record scan_state =
  probed :: "u32 list"
  scanned :: "u32 list"

text \<open>\<open>scanner.reset(domin)\<close>.\<close>

definition reset_scanner :: scan_state where
  "reset_scanner = \<lparr> probed = [], scanned = [] \<rparr>"

text \<open>
  \<open>probe\<close>: \<open>assert(param.L == 1)\<close>, then every identifier of the bucket, when the table
  has it, goes to the scanner.
\<close>

definition probe :: "laItqLsh \<Rightarrow> nat \<Rightarrow> u32 \<Rightarrow> scan_state \<Rightarrow> error + scan_state" where
  "probe idx t bucketId sc =
     (if L (param idx) \<noteq> 1 then Inl AssertionFailed
      else if length (tables idx) \<le> t then Inl OutOfBounds
      else Inr \<lparr> probed = probed sc @ [bucketId],
                 scanned = scanned sc @ bucket_of (tables idx ! t) bucketId \<rparr>)"

text \<open>The loop \<open>for (unsigned k = 0; k != param.L; ++k)\<close> of the query strategies.\<close>

fun for_tables :: "(nat \<Rightarrow> scan_state \<Rightarrow> error + scan_state) \<Rightarrow> nat list \<Rightarrow> scan_state \<Rightarrow> error + scan_state" where
  "for_tables body [] sc = Inr sc"
| "for_tables body (k # ks) sc =
     (case body k sc of Inl e \<Rightarrow> Inl e | Inr sc' \<Rightarrow> for_tables body ks sc')"

subsection \<open>\<open>query\<close>\<close>

definition query_table :: "laItqLsh \<Rightarrow> float list \<Rightarrow> nat \<Rightarrow> scan_state \<Rightarrow> error + scan_state" where
  "query_table idx domin k sc =
     (case getHashVal idx k domin of
        Inl e \<Rightarrow> Inl e
      | Inr hashVal \<Rightarrow> probe idx k hashVal sc)"

definition query :: "laItqLsh \<Rightarrow> float list \<Rightarrow> error + scan_state" where
  "query idx domin =
     (if L (param idx) \<noteq> 1 then Inl AssertionFailed
      else for_tables (query_table idx domin) [0..<unat (L (param idx))] reset_scanner)"

subsection \<open>\<open>queryRanking\<close>\<close>

text \<open>\<open>while (xorVal != 0) { hamDist++; xorVal &= xorVal - 1; }\<close>\<close>

function hamDist_loop :: "u32 \<Rightarrow> nat \<Rightarrow> nat" where
  "hamDist_loop xorVal hamDist =
     (if xorVal \<noteq> 0 then hamDist_loop (xorVal AND (xorVal - 1)) (hamDist + 1) else hamDist)"
  by pat_completeness auto
termination
proof (relation "measure (\<lambda>(xorVal, hamDist). unat xorVal)")
  show "wf (measure (\<lambda>(xorVal, hamDist). unat xorVal))" by simp
next
  fix xorVal :: u32 and hamDist :: nat
  assume nz: "xorVal \<noteq> 0"
  have "xorVal AND (xorVal - 1) \<le> xorVal - 1" by (rule word_and_le1)
  also have "xorVal - 1 < xorVal" using nz by (simp add: word_less_nat_alt unat_minus_one unat_gt_0)
  finally show "((xorVal AND (xorVal - 1), hamDist + 1), (xorVal, hamDist))
      \<in> measure (\<lambda>(xorVal, hamDist). unat xorVal)"
    by (simp add: word_less_nat_alt)
qed

declare hamDist_loop.simps [simp del]

text \<open>
  The first loop over \<open>tables[k]\<close>: every bucket code goes to the row of its distance,
  \<open>assert(hamDist < dstToBks.size())\<close>.
\<close>

fun fill_dstToBks :: "u32 \<Rightarrow> bucket_map \<Rightarrow> u32 list list \<Rightarrow> error + u32 list list" where
  "fill_dstToBks hashVal [] dstToBks = Inr dstToBks"
| "fill_dstToBks hashVal ((bucketVal, ids) # rest) dstToBks =
     (let hamDist = hamDist_loop (hashVal XOR bucketVal) 0
      in if hamDist < length dstToBks
         then fill_dstToBks hashVal rest
                (dstToBks[hamDist := dstToBks ! hamDist @ [bucketVal]])
         else Inl AssertionFailed)"

text \<open>\<open>while (proCol == dstToBks[proRow].size()) { proCol = 0; proRow++; }\<close>\<close>

function advance :: "u32 list list \<Rightarrow> nat \<Rightarrow> nat \<Rightarrow> error + nat \<times> nat" where
  "advance dstToBks proRow proCol =
     (if proRow < length dstToBks
      then (if proCol = length (dstToBks ! proRow) then advance dstToBks (proRow + 1) 0
            else Inr (proRow, proCol))
      else Inl OutOfBounds)"
  by pat_completeness auto
termination
  by (relation "measure (\<lambda>(dstToBks, proRow, proCol). length dstToBks - proRow)") auto

declare advance.simps [simp del]

text \<open>
  \<open>for (int bId = 0; bId < tables[k].size() && bId < maxNumBuckets; ++bId)\<close>: skip the
  exhausted rows, then probe \<open>dstToBks[proRow][proCol++]\<close>.
\<close>

function ranking_probe_loop ::
  "laItqLsh \<Rightarrow> nat \<Rightarrow> u32 list list \<Rightarrow> int \<Rightarrow> nat \<Rightarrow> nat \<Rightarrow> nat \<Rightarrow> scan_state \<Rightarrow> error + scan_state" where
  "ranking_probe_loop idx k dstToBks maxNumBuckets bId proRow proCol sc =
     (if bId < length (tables idx ! k) \<and> int bId < maxNumBuckets
      then (case advance dstToBks proRow proCol of
              Inl e \<Rightarrow> Inl e
            | Inr (proRow', proCol') \<Rightarrow>
                if proCol' < length (dstToBks ! proRow')
                then (case probe idx k (dstToBks ! proRow' ! proCol') sc of
                        Inl e \<Rightarrow> Inl e
                      | Inr sc' \<Rightarrow>
                          ranking_probe_loop idx k dstToBks maxNumBuckets (bId + 1)
                            proRow' (proCol' + 1) sc')
                else Inl OutOfBounds)
      else Inr sc)"
  by pat_completeness auto
termination
  by (relation "measure (\<lambda>(idx, k, dstToBks, maxNumBuckets, bId, proRow, proCol, sc).
        length (tables idx ! k) - bId)") auto

declare ranking_probe_loop.simps [simp del]

definition queryRanking_table ::
  "laItqLsh \<Rightarrow> float list \<Rightarrow> int \<Rightarrow> nat \<Rightarrow> scan_state \<Rightarrow> error + scan_state" where
  "queryRanking_table idx domin maxNumBuckets k sc =
     (case getHashVal idx k domin of
        Inl e \<Rightarrow> Inl e
      | Inr hashVal \<Rightarrow>
          if length (tables idx) \<le> k then Inl OutOfBounds
          else (case fill_dstToBks hashVal (tables idx ! k)
                       (replicate (unat (N (param idx) + 1)) []) of
                  Inl e \<Rightarrow> Inl e
                | Inr dstToBks \<Rightarrow> ranking_probe_loop idx k dstToBks maxNumBuckets 0 0 0 sc))"

definition queryRanking :: "laItqLsh \<Rightarrow> float list \<Rightarrow> int \<Rightarrow> error + scan_state" where
  "queryRanking idx domin maxNumBuckets =
     (if L (param idx) \<noteq> 1 then Inl AssertionFailed
      else for_tables (queryRanking_table idx domin maxNumBuckets)
             [0..<unat (L (param idx))] reset_scanner)"

text \<open>The number of bit positions, of the 32 of an \<open>unsigned\<close>, at which two codes differ.\<close>

definition hamming :: "u32 \<Rightarrow> u32 \<Rightarrow> nat" where
  "hamming a b = length (filter (\<lambda>i. bit a i \<noteq> bit b i) [0..<32])"

subsection \<open>Single-precision addition\<close>

text \<open>
  The loss of a bucket is accumulated in a \<open>float\<close>: each \<open>dst += x\<close> rounds the sum to
  single precision. The strategy takes this addition as the parameter \<open>float_add\<close>, so
  that what is proved of it holds whatever the rounding is.

  \<open>binary32_add\<close> is the addition of IEEE 754 binary32 on operands that are not negative,
  as those of the loss are: the exact sum rounded to the nearest value with a significand
  of 24 bits and a quantum of at least \<open>2 ^ -149\<close>, a tie going to the even significand.
  \<open>2 ^ 128\<close> stands for infinity.
\<close>

definition round_half_even :: "real \<Rightarrow> int" where
  "round_half_even m =
     (let f = \<lfloor>m\<rfloor>
      in if m - of_int f < 1 / 2 then f
         else if 1 / 2 < m - of_int f then f + 1
         else if even f then f else f + 1)"

text \<open>
  The quantum of a magnitude \<open>a\<close>: the power of two \<open>q\<close> with
  \<open>2 ^ 23 * q \<le> a < 2 ^ 24 * q\<close>, found from \<open>q = 1\<close> by doubling or by halving; 149
  halvings reach the quantum of the subnormal numbers.
\<close>

fun quantum_up :: "nat \<Rightarrow> real \<Rightarrow> real \<Rightarrow> real" where
  "quantum_up 0 a q = q"
| "quantum_up (Suc fuel) a q = (if 2 ^ 24 * q \<le> a then quantum_up fuel a (2 * q) else q)"

fun quantum_down :: "nat \<Rightarrow> real \<Rightarrow> real \<Rightarrow> real" where
  "quantum_down 0 a q = q"
| "quantum_down (Suc fuel) a q = (if a < 2 ^ 23 * q then quantum_down fuel a (q / 2) else q)"

definition binary32_round :: "real \<Rightarrow> real" where
  "binary32_round x =
     (if x = 0 then 0
      else (let a = \<bar>x\<bar>;
                q = (if 2 ^ 24 \<le> a then quantum_up 150 a 1 else quantum_down 149 a 1);
                r = of_int (round_half_even (a / q)) * q
            in sgn x * min r (2 ^ 128)))"

definition binary32_add :: "float \<Rightarrow> float \<Rightarrow> float" where
  "binary32_add x y = binary32_round (x + y)"

subsection \<open>\<open>queryRankingByLoss\<close>\<close>

text \<open>
  \<open>float dst = 0; for (bIdx = 0; bIdx < queryBits.size(); ++bIdx)
  if (queryBits[bIdx] != bucketBits[bIdx]) dst += fabs(queryFloats[bIdx]);\<close>
\<close>

definition loss_loop ::
  "(float \<Rightarrow> float \<Rightarrow> float) \<Rightarrow> bool list \<Rightarrow> bool list \<Rightarrow> float list \<Rightarrow> float" where
  "loss_loop float_add queryBits bucketBits queryFloats =
     foldl (\<lambda>dst bIdx. if queryBits ! bIdx \<noteq> bucketBits ! bIdx
                        then float_add dst \<bar>queryFloats ! bIdx\<bar> else dst)
       0 [0..<length queryBits]"

text \<open>The loop over \<open>tables[k]\<close> that fills \<open>dstToBks\<close> with the pairs (loss, code).\<close>

fun loss_table ::
  "(float \<Rightarrow> float \<Rightarrow> float) \<Rightarrow> laItqLsh \<Rightarrow> bool list \<Rightarrow> float list \<Rightarrow> bucket_map \<Rightarrow>
   error + (float \<times> u32) list" where
  "loss_table float_add idx queryBits queryFloats [] = Inr []"
| "loss_table float_add idx queryBits queryFloats ((code, ids) # rest) =
     (case unsignedToBools idx code of
        Inl e \<Rightarrow> Inl e
      | Inr bucketBits \<Rightarrow>
          if length queryBits \<le> length bucketBits \<and> length queryBits \<le> length queryFloats
          then (case loss_table float_add idx queryBits queryFloats rest of
                  Inl e \<Rightarrow> Inl e
                | Inr dstToBks \<Rightarrow>
                    Inr ((loss_loop float_add queryBits bucketBits queryFloats, code) #
                         dstToBks))
          else Inl OutOfBounds)"

text \<open>
  \<open>for (int bId = 0; bId < dstToBks.size() && bId < maxNumBuckets; ++bId)
  probe(k, dstToBks[bId].second, scanner)\<close>, the list being what is left of \<open>dstToBks\<close>
  from \<open>bId\<close> on.
\<close>

fun loss_probe_loop ::
  "laItqLsh \<Rightarrow> nat \<Rightarrow> int \<Rightarrow> nat \<Rightarrow> (float \<times> u32) list \<Rightarrow> scan_state \<Rightarrow> error + scan_state" where
  "loss_probe_loop idx k maxNumBuckets bId [] sc = Inr sc"
| "loss_probe_loop idx k maxNumBuckets bId (p # ps) sc =
     (if int bId < maxNumBuckets
      then (case probe idx k (snd p) sc of
              Inl e \<Rightarrow> Inl e
            | Inr sc' \<Rightarrow> loss_probe_loop idx k maxNumBuckets (bId + 1) ps sc')
      else Inr sc)"

text \<open>
  \<open>std::sort\<close> with the comparator \<open>a.first < b.first\<close> belongs to the standard library;
  it is the parameter \<open>std_sort\<close>. The standard promises a sorted permutation and leaves
  the order of pairs with equal loss open.
\<close>

definition sorts_by_loss :: "((float \<times> u32) list \<Rightarrow> (float \<times> u32) list) \<Rightarrow> bool" where
  "sorts_by_loss std_sort \<longleftrightarrow>
     (\<forall>xs. sorted (map fst (std_sort xs)) \<and> mset (std_sort xs) = mset xs)"

definition queryRankingByLoss_table ::
  "(float \<Rightarrow> float \<Rightarrow> float) \<Rightarrow> ((float \<times> u32) list \<Rightarrow> (float \<times> u32) list) \<Rightarrow> laItqLsh \<Rightarrow>
   float list \<Rightarrow> int \<Rightarrow> nat \<Rightarrow> scan_state \<Rightarrow> error + scan_state" where
  "queryRankingByLoss_table float_add std_sort idx domin maxNumBuckets k sc =
     (case getHashBits idx k domin of
        Inl e \<Rightarrow> Inl e
      | Inr queryBits \<Rightarrow>
          (case getHashFloats idx k domin of
             Inl e \<Rightarrow> Inl e
           | Inr queryFloats \<Rightarrow>
               if length (tables idx) \<le> k then Inl OutOfBounds
               else (case loss_table float_add idx queryBits queryFloats (tables idx ! k) of
                       Inl e \<Rightarrow> Inl e
                     | Inr dstToBks \<Rightarrow>
                         loss_probe_loop idx k maxNumBuckets 0 (std_sort dstToBks) sc)))"

definition queryRankingByLoss ::
  "(float \<Rightarrow> float \<Rightarrow> float) \<Rightarrow> ((float \<times> u32) list \<Rightarrow> (float \<times> u32) list) \<Rightarrow> laItqLsh \<Rightarrow>
   float list \<Rightarrow> int \<Rightarrow> error + scan_state" where
  "queryRankingByLoss float_add std_sort idx domin maxNumBuckets =
     (if L (param idx) \<noteq> 1 then Inl AssertionFailed
      else for_tables (queryRankingByLoss_table float_add std_sort idx domin maxNumBuckets)
             [0..<unat (L (param idx))] reset_scanner)"

text \<open>
  The loss the specification describes: the sum of the absolute projections over the
  positions \<open>i\<close> below \<open>N\<close> at which the query's bit differs from the bucket's bit, the
  bucket's bit at position \<open>i\<close> being bit \<open>N - 1 - i\<close> of its code. The sum is one of
  floats: the terms are added in the order of their positions, each addition rounding.
\<close>

definition quantization_loss ::
  "(float \<Rightarrow> float \<Rightarrow> float) \<Rightarrow> nat \<Rightarrow> bool list \<Rightarrow> float list \<Rightarrow> u32 \<Rightarrow> float" where
  "quantization_loss float_add n queryBits queryFloats code =
     foldl float_add 0
       (map (\<lambda>i. \<bar>queryFloats ! i\<bar>)
          (filter (\<lambda>i. queryBits ! i \<noteq> bit code (n - Suc i)) [0..<n]))"

subsection \<open>\<open>queryByLoss\<close>\<close>

text \<open>
  The class \<open>Probing\<close> of \<open>probing.h\<close> is not part of the sources at hand. It enters as
  two parameters: \<open>pro_init hashBits hashFloats flag\<close> is the generator the constructor
  builds, \<open>pro_pop\<close> returns the next bucket code and the generator after the call.
\<close>

text \<open>\<open>for (int numBk = 1; numBk < maxNumBuckets; ++numBk) probe(0, pro.pop(), scanner)\<close>\<close>

function generated_probe_loop ::
  "('s \<Rightarrow> u32 \<times> 's) \<Rightarrow> laItqLsh \<Rightarrow> int \<Rightarrow> int \<Rightarrow> 's \<Rightarrow> scan_state \<Rightarrow> error + scan_state" where
  "generated_probe_loop pro_pop idx maxNumBuckets numBk pro sc =
     (if numBk < maxNumBuckets
      then (case pro_pop pro of
              (probedBId, pro') \<Rightarrow>
                (case probe idx 0 probedBId sc of
                   Inl e \<Rightarrow> Inl e
                 | Inr sc' \<Rightarrow>
                     generated_probe_loop pro_pop idx maxNumBuckets (numBk + 1) pro' sc'))
      else Inr sc)"
  by pat_completeness auto
termination
  by (relation "measure (\<lambda>(pro_pop, idx, maxNumBuckets, numBk, pro, sc).
        nat (maxNumBuckets - numBk))") auto

declare generated_probe_loop.simps [simp del]

definition queryByLoss_table ::
  "(bool list \<Rightarrow> float list \<Rightarrow> bool \<Rightarrow> 's) \<Rightarrow> ('s \<Rightarrow> u32 \<times> 's) \<Rightarrow> laItqLsh \<Rightarrow> float list \<Rightarrow>
   int \<Rightarrow> bool \<Rightarrow> nat \<Rightarrow> scan_state \<Rightarrow> error + scan_state" where
  "queryByLoss_table pro_init pro_pop idx domin maxNumBuckets withMeanAndSTD k sc =
     (case getHashVal idx k domin of
        Inl e \<Rightarrow> Inl e
      | Inr hashVal \<Rightarrow>
          (case getHashBits idx k domin of
             Inl e \<Rightarrow> Inl e
           | Inr hashBits \<Rightarrow>
               (case getHashFloats idx k domin of
                  Inl e \<Rightarrow> Inl e
                | Inr hashFloats \<Rightarrow>
                    if length hashBits \<noteq> unat (N (param idx)) \<or>
                       length hashFloats \<noteq> unat (N (param idx))
                    then Inl AssertionFailed
                    else (case probe idx 0 hashVal sc of
                            Inl e \<Rightarrow> Inl e
                          | Inr sc' \<Rightarrow>
                              generated_probe_loop pro_pop idx maxNumBuckets 1
                                (pro_init hashBits hashFloats False) sc'))))"

definition queryByLoss ::
  "(bool list \<Rightarrow> float list \<Rightarrow> bool \<Rightarrow> 's) \<Rightarrow> ('s \<Rightarrow> u32 \<times> 's) \<Rightarrow> laItqLsh \<Rightarrow> float list \<Rightarrow>
   int \<Rightarrow> bool \<Rightarrow> error + scan_state" where
  "queryByLoss pro_init pro_pop idx domin maxNumBuckets withMeanAndSTD =
     (if L (param idx) \<noteq> 1 then Inl AssertionFailed
      else for_tables (queryByLoss_table pro_init pro_pop idx domin maxNumBuckets withMeanAndSTD)
             [0..<unat (L (param idx))] reset_scanner)"

subsection \<open>\<open>rehash\<close> and \<open>queryRehash\<close>\<close>

text \<open>
  \<open>for (unsigned k = 1; k != tables.size(); ++k) { hashVal = pro.pop();
  tables[k][hashVal].push_back(i); }\<close>
\<close>

fun rehash_fanout ::
  "('s \<Rightarrow> u32 \<times> 's) \<Rightarrow> u32 \<Rightarrow> nat list \<Rightarrow> 's \<Rightarrow> bucket_map list \<Rightarrow> bucket_map list" where
  "rehash_fanout pro_pop i [] pro tbs = tbs"
| "rehash_fanout pro_pop i (k # ks) pro tbs =
     (case pro_pop pro of
        (hashVal, pro') \<Rightarrow>
          rehash_fanout pro_pop i ks pro' (tbs[k := map_push_back hashVal i (tbs ! k)]))"

text \<open>The loop over the rows of the dataset; \<open>i\<close> is the row number.\<close>

fun rehash_loop ::
  "(bool list \<Rightarrow> float list \<Rightarrow> bool \<Rightarrow> 's) \<Rightarrow> ('s \<Rightarrow> u32 \<times> 's) \<Rightarrow> laItqLsh \<Rightarrow>
   float list list \<Rightarrow> nat \<Rightarrow> error + laItqLsh" where
  "rehash_loop pro_init pro_pop idx [] i = Inr idx"
| "rehash_loop pro_init pro_pop idx (domin # rest) i =
     (case getHashVal idx 0 domin of
        Inl e \<Rightarrow> Inl e
      | Inr hashVal \<Rightarrow>
          (case getHashBits idx 0 domin of
             Inl e \<Rightarrow> Inl e
           | Inr hashBits \<Rightarrow>
               (case getHashFloats idx 0 domin of
                  Inl e \<Rightarrow> Inl e
                | Inr hashFloats \<Rightarrow>
                    if tables idx = [] then Inl OutOfBounds
                    else rehash_loop pro_init pro_pop
                           (idx\<lparr>tables :=
                              rehash_fanout pro_pop (of_nat i) [1..<length (tables idx)]
                                (pro_init hashBits hashFloats False)
                                ((tables idx)[0 := map_push_back hashVal (of_nat i) (tables idx ! 0)])\<rparr>)
                           rest (Suc i))))"

text \<open>
  \<open>rehash\<close>: \<open>if (numTables == 1) return; tables.clear(); tables.resize(numTables);\<close>
  and the loop. A negative \<open>numTables\<close> is a size that \<open>resize\<close> refuses.
\<close>

definition rehash ::
  "(bool list \<Rightarrow> float list \<Rightarrow> bool \<Rightarrow> 's) \<Rightarrow> ('s \<Rightarrow> u32 \<times> 's) \<Rightarrow> laItqLsh \<Rightarrow>
   float list list \<Rightarrow> int \<Rightarrow> error + laItqLsh" where
  "rehash pro_init pro_pop idx data numTables =
     (if numTables = 1 then Inr idx
      else if numTables < 0 then Inl LengthError
      else rehash_loop pro_init pro_pop
             (idx\<lparr>tables := replicate (nat numTables) []\<rparr>) data 0)"

text \<open>The code the \<open>j\<close>-th call of \<open>pop\<close> returns, counting from 0.\<close>

fun nth_pop :: "('s \<Rightarrow> u32 \<times> 's) \<Rightarrow> 's \<Rightarrow> nat \<Rightarrow> u32" where
  "nth_pop pro_pop pro 0 = fst (pro_pop pro)"
| "nth_pop pro_pop pro (Suc j) = nth_pop pro_pop (snd (pro_pop pro)) j"

text \<open>\<open>queryRehash\<close>: the code of table 0 is probed in every table.\<close>

definition queryRehash :: "laItqLsh \<Rightarrow> float list \<Rightarrow> error + scan_state" where
  "queryRehash idx domin =
     (if L (param idx) \<noteq> 1 then Inl AssertionFailed
      else (case getHashVal idx 0 domin of
              Inl e \<Rightarrow> Inl e
            | Inr hashVal \<Rightarrow>
                for_tables (\<lambda>k. probe idx k hashVal) [0..<length (tables idx)] reset_scanner))"

text \<open>
  The code under which a row enters table \<open>k\<close>, in the words of the specification: its
  exact code for table 0, and for a table \<open>k \<ge> 1\<close> the \<open>k\<close>-th code popped from the
  generator seeded with the row's own bits and floats.
\<close>

definition rehash_code ::
  "(bool list \<Rightarrow> float list \<Rightarrow> bool \<Rightarrow> 's) \<Rightarrow> ('s \<Rightarrow> u32 \<times> 's) \<Rightarrow> laItqLsh \<Rightarrow>
   float list \<Rightarrow> nat \<Rightarrow> error + u32" where
  "rehash_code pro_init pro_pop idx domin k =
     (if k = 0 then getHashVal idx 0 domin
      else (case getHashBits idx 0 domin of
              Inl e \<Rightarrow> Inl e
            | Inr hashBits \<Rightarrow>
                (case getHashFloats idx 0 domin of
                   Inl e \<Rightarrow> Inl e
                 | Inr hashFloats \<Rightarrow>
                     Inr (nth_pop pro_pop (pro_init hashBits hashFloats False) (k - 1)))))"

text \<open>The identifiers of the rows of a dataset that enter table \<open>k\<close> under a code, in row order.\<close>

definition rows_with_code ::
  "(bool list \<Rightarrow> float list \<Rightarrow> bool \<Rightarrow> 's) \<Rightarrow> ('s \<Rightarrow> u32 \<times> 's) \<Rightarrow> laItqLsh \<Rightarrow>
   nat \<Rightarrow> u32 \<Rightarrow> (nat \<times> float list) list \<Rightarrow> u32 list" where
  "rows_with_code pro_init pro_pop idx k code rows =
     map (\<lambda>(i, domin). of_nat i)
       (filter (\<lambda>(i, domin). rehash_code pro_init pro_pop idx domin k = Inr code) rows)"

section \<open>Codec\<close>

text \<open>
  Everything \<open>save\<close> writes and \<open>load\<close> reads is a 4-byte object, an \<open>unsigned\<close> or a
  \<open>float\<close>, copied byte for byte. A file is the sequence of these objects; two files are
  byte-identical when the sequences are equal. The model does not turn the bytes of a
  \<open>float\<close> into an \<open>unsigned\<close> or back: a read that meets an object of the other type,
  which no file written by \<open>save\<close> with the same parameters leads to, ends in \<open>Misparse\<close>.
\<close>

datatype cell = U u32 | F float

text \<open>
  One bucket: \<open>target\<close>, \<open>length = unsigned(iter->second.size())\<close>, then \<open>length\<close>
  identifiers.
\<close>

definition save_bucket :: "u32 \<times> u32 list \<Rightarrow> cell list" where
  "save_bucket b =
     (case b of (target, ids) \<Rightarrow>
        [U target, U (of_nat (length ids))] @
        map U (take (unat (of_nat (length ids) :: u32)) ids))"

text \<open>The subscripts \<open>save\<close> uses for table \<open>i\<close> are in range.\<close>

definition save_in_range :: "laItqLsh \<Rightarrow> nat \<Rightarrow> bool" where
  "save_in_range idx i \<longleftrightarrow>
     i < length (rndArray idx) \<and> unat (N (param idx)) \<le> length (rndArray idx ! i) \<and>
     i < length (tables idx) \<and> i < length (pcsAll idx) \<and> i < length (omegasAll idx) \<and>
     unat (N (param idx)) \<le> length (pcsAll idx ! i) \<and>
     unat (N (param idx)) \<le> length (omegasAll idx ! i) \<and>
     list_all (\<lambda>row. unat (D (param idx)) \<le> length row)
       (take (unat (N (param idx))) (pcsAll idx ! i)) \<and>
     list_all (\<lambda>row. unat (N (param idx)) \<le> length row)
       (take (unat (N (param idx))) (omegasAll idx ! i))"

text \<open>
  The body of the loop over \<open>i\<close>: \<open>N\<close> entries of \<open>rndArray[i]\<close>, the bucket count, the
  buckets in key order, and for each \<open>j\<close> below \<open>N\<close> the \<open>D\<close> floats of \<open>pcsAll[i][j]\<close>
  followed by the \<open>N\<close> floats of \<open>omegasAll[i][j]\<close>.
\<close>

definition save_table :: "laItqLsh \<Rightarrow> nat \<Rightarrow> cell list" where
  "save_table idx i =
     map U (take (unat (N (param idx))) (rndArray idx ! i)) @
     [U (of_nat (length (tables idx ! i)))] @
     concat (map save_bucket (tables idx ! i)) @
     concat (map (\<lambda>j. map F (take (unat (D (param idx))) (pcsAll idx ! i ! j)) @
                      map F (take (unat (N (param idx))) (omegasAll idx ! i ! j)))
               [0..<unat (N (param idx))])"

definition save :: "laItqLsh \<Rightarrow> error + cell list" where
  "save idx =
     (if list_all (save_in_range idx) [0..<unat (L (param idx))]
      then Inr ([U (M (param idx)), U (L (param idx)), U (D (param idx)), U (N (param idx)),
                 U (S (param idx))] @
                concat (map (save_table idx) [0..<unat (L (param idx))]))
      else Inl OutOfBounds)"

text \<open>\<open>in.read\<close> of one \<open>unsigned\<close>, of \<open>n\<close> of them, and of \<open>n\<close> floats.\<close>

fun read_unsigned :: "cell list \<Rightarrow> error + u32 \<times> cell list" where
  "read_unsigned [] = Inl ReadPastEnd"
| "read_unsigned (U w # file) = Inr (w, file)"
| "read_unsigned (F x # file) = Inl Misparse"

fun read_unsigneds :: "nat \<Rightarrow> cell list \<Rightarrow> error + u32 list \<times> cell list" where
  "read_unsigneds 0 file = Inr ([], file)"
| "read_unsigneds (Suc n) file =
     (case read_unsigned file of
        Inl e \<Rightarrow> Inl e
      | Inr (w, file') \<Rightarrow>
          (case read_unsigneds n file' of
             Inl e \<Rightarrow> Inl e
           | Inr (ws, file'') \<Rightarrow> Inr (w # ws, file'')))"

fun read_floats :: "nat \<Rightarrow> cell list \<Rightarrow> error + float list \<times> cell list" where
  "read_floats 0 file = Inr ([], file)"
| "read_floats (Suc n) [] = Inl ReadPastEnd"
| "read_floats (Suc n) (U w # file) = Inl Misparse"
| "read_floats (Suc n) (F x # file) =
     (case read_floats n file of
        Inl e \<Rightarrow> Inl e
      | Inr (xs, file') \<Rightarrow> Inr (x # xs, file'))"

text \<open>
  \<open>for (j = 0; j != count; ++j)\<close>: read \<open>target\<close> and \<open>length\<close>, then
  \<open>tables[i][target].resize(length)\<close> and \<open>length\<close> identifiers into it.
\<close>

fun load_buckets :: "nat \<Rightarrow> bucket_map \<Rightarrow> cell list \<Rightarrow> error + bucket_map \<times> cell list" where
  "load_buckets 0 m file = Inr (m, file)"
| "load_buckets (Suc remaining) m file =
     (case read_unsigned file of
        Inl e \<Rightarrow> Inl e
      | Inr (target, file1) \<Rightarrow>
          (case read_unsigned file1 of
             Inl e \<Rightarrow> Inl e
           | Inr (len, file2) \<Rightarrow>
               (case read_unsigneds (unat len) file2 of
                  Inl e \<Rightarrow> Inl e
                | Inr (ids, file3) \<Rightarrow> load_buckets remaining (map_assign target ids m) file3)))"

text \<open>
  \<open>for (j = 0; j != param.N; ++j)\<close>: \<open>D\<close> floats into \<open>pcsAll[i][j]\<close>, then \<open>N\<close> floats
  into \<open>omegasAll[i][j]\<close>. The result lists the pairs of rows.
\<close>

fun load_rows :: "nat \<Rightarrow> nat \<Rightarrow> nat \<Rightarrow> cell list \<Rightarrow> error + (float list \<times> float list) list \<times> cell list" where
  "load_rows 0 d n file = Inr ([], file)"
| "load_rows (Suc j) d n file =
     (case read_floats d file of
        Inl e \<Rightarrow> Inl e
      | Inr (pcs_row, file1) \<Rightarrow>
          (case read_floats n file1 of
             Inl e \<Rightarrow> Inl e
           | Inr (omegas_row, file2) \<Rightarrow>
               (case load_rows j d n file2 of
                  Inl e \<Rightarrow> Inl e
                | Inr (rows, file3) \<Rightarrow> Inr ((pcs_row, omegas_row) # rows, file3))))"

text \<open>What the body of the loop over \<open>i\<close> reads for one table.\<close>

record loaded_table =
  lt_rnd :: "u32 list"
  lt_buckets :: bucket_map
  lt_pcs :: "float list list"
  lt_omegas :: "float list list"

definition load_table :: "nat \<Rightarrow> nat \<Rightarrow> bucket_map \<Rightarrow> cell list \<Rightarrow> error + loaded_table \<times> cell list" where
  "load_table n d m file =
     (case read_unsigneds n file of
        Inl e \<Rightarrow> Inl e
      | Inr (rnd, file1) \<Rightarrow>
          (case read_unsigned file1 of
             Inl e \<Rightarrow> Inl e
           | Inr (bucket_count, file2) \<Rightarrow>
               (case load_buckets (unat bucket_count) m file2 of
                  Inl e \<Rightarrow> Inl e
                | Inr (m', file3) \<Rightarrow>
                    (case load_rows n d n file3 of
                       Inl e \<Rightarrow> Inl e
                     | Inr (rows, file4) \<Rightarrow>
                         Inr (\<lparr> lt_rnd = rnd, lt_buckets = m', lt_pcs = map fst rows,
                                lt_omegas = map snd rows \<rparr>, file4)))))"

text \<open>
  The loop over \<open>i\<close>; the list holds \<open>tables[i]\<close> for the remaining \<open>i\<close>, as
  \<open>tables.resize(param.L)\<close> left them.
\<close>

fun load_tables :: "nat \<Rightarrow> nat \<Rightarrow> bucket_map list \<Rightarrow> cell list \<Rightarrow> error + loaded_table list \<times> cell list" where
  "load_tables n d [] file = Inr ([], file)"
| "load_tables n d (m # ms) file =
     (case load_table n d m file of
        Inl e \<Rightarrow> Inl e
      | Inr (t, file1) \<Rightarrow>
          (case load_tables n d ms file1 of
             Inl e \<Rightarrow> Inl e
           | Inr (ts, file2) \<Rightarrow> Inr (t # ts, file2)))"

text \<open>
  \<open>load\<close> into the object \<open>idx\<close>: the five parameters (\<open>param.I\<close> is neither written nor
  read), the four \<open>resize(param.L)\<close>, of which the one of \<open>tables\<close> keeps what the object
  held, and the loop.
\<close>

definition load :: "laItqLsh \<Rightarrow> cell list \<Rightarrow> error + laItqLsh" where
  "load idx file =
     (case read_unsigneds 5 file of
        Inl e \<Rightarrow> Inl e
      | Inr (header, file1) \<Rightarrow>
          (let m = header ! 0; l = header ! 1; d = header ! 2; n = header ! 3; s = header ! 4
           in case load_tables (unat n) (unat d) (resize (unat l) [] (tables idx)) file1 of
                Inl e \<Rightarrow> Inl e
              | Inr (ts, file2) \<Rightarrow>
                  Inr (idx\<lparr> param := (param idx)\<lparr> M := m, L := l, D := d, N := n, S := s \<rparr>,
                             rndArray := map lt_rnd ts,
                             tables := map lt_buckets ts,
                             pcsAll := map lt_pcs ts,
                             omegasAll := map lt_omegas ts \<rparr>)))"

text \<open>A default-constructed object, into which a file is loaded.\<close>

definition empty_index :: "laItqLsh" where
  "empty_index =
     \<lparr> param = \<lparr> M = 0, L = 0, D = 0, N = 0, S = 0, I = 0 \<rparr>,
       pcsAll = [], omegasAll = [], rndArray = [], tables = [] \<rparr>"

text \<open>
  What \<open>save\<close> relies on beyond \<open>trained\<close>: a table and a row of \<open>rndArray\<close> of at least
  \<open>N\<close> entries for each \<open>i\<close> below \<open>L\<close>, maps with increasing keys, and bucket counts and
  bucket lengths that fit the \<open>unsigned\<close> they are written as.
\<close>

definition saveable :: "laItqLsh \<Rightarrow> bool" where
  "saveable idx \<longleftrightarrow>
     trained idx \<and>
     unat (L (param idx)) \<le> length (tables idx) \<and>
     unat (L (param idx)) \<le> length (rndArray idx) \<and>
     list_all (\<lambda>rnd. unat (N (param idx)) \<le> length rnd) (rndArray idx) \<and>
     list_all (\<lambda>m. sorted_map m \<and> length m < 2 ^ 32 \<and>
                  list_all (\<lambda>(code, ids). length ids < 2 ^ 32) m) (tables idx)"

text \<open>What \<open>load\<close> reads back for table \<open>i\<close> of a saved index.\<close>

definition written_table :: "laItqLsh \<Rightarrow> nat \<Rightarrow> loaded_table" where
  "written_table idx i =
     \<lparr> lt_rnd = take (unat (N (param idx))) (rndArray idx ! i),
       lt_buckets = tables idx ! i,
       lt_pcs = pcsAll idx ! i,
       lt_omegas = omegasAll idx ! i \<rparr>"

text \<open>The index \<open>load\<close> returns on the file \<open>save\<close> wrote, in the object \<open>idx0\<close>.\<close>

definition reloaded :: "laItqLsh \<Rightarrow> laItqLsh \<Rightarrow> laItqLsh" where
  "reloaded idx0 idx =
     idx0\<lparr> param := (param idx0)\<lparr> M := M (param idx), L := L (param idx), D := D (param idx),
                                    N := N (param idx), S := S (param idx) \<rparr>,
           rndArray := map (take (unat (N (param idx))))
                         (take (unat (L (param idx))) (rndArray idx)),
           tables := take (unat (L (param idx))) (tables idx),
           pcsAll := pcsAll idx,
           omegasAll := omegasAll idx \<rparr>"

text \<open>The number of bits set in an \<open>unsigned\<close>.\<close>

definition pop_count :: "u32 \<Rightarrow> nat" where
  "pop_count x = length (filter (bit x) [0..<32])"

text \<open>
  The bucket codes of a table in the order of the rows of \<open>dstToBks\<close>: for each distance
  \<open>d\<close> below \<open>n\<close>, the codes at distance \<open>d\<close> from \<open>hashVal\<close>, in key order.
\<close>

definition by_distance :: "u32 \<Rightarrow> u32 list \<Rightarrow> nat \<Rightarrow> u32 list" where
  "by_distance hashVal codes n =
     concat (map (\<lambda>d. filter (\<lambda>code. hamming hashVal code = d) codes) [0..<n])"

section \<open>Concrete indexes\<close>

text \<open>A one-table index with the 2 x 2 identity as projection and as rotation.\<close>

definition identity2 :: "laItqLsh" where
  "identity2 =
     \<lparr> param = \<lparr> M = 521, L = 1, D = 2, N = 2, S = 2, I = 1 \<rparr>,
       pcsAll = [[[1, 0], [0, 1]]],
       omegasAll = [[[1, 0], [0, 1]]],
       rndArray = [[0, 0]],
       tables = [[]] \<rparr>"

text \<open>
  A generator to run the strategies on: it starts from the packed bits and returns the
  codes that follow it, in steps of 1 when built without the flag and of 2 when built
  with it.
\<close>

definition step_pro_init :: "bool list \<Rightarrow> float list \<Rightarrow> bool \<Rightarrow> u32 \<times> bool" where
  "step_pro_init hashBits hashFloats flag = (pack_msb_first hashBits, flag)"

definition step_pro_pop :: "u32 \<times> bool \<Rightarrow> u32 \<times> (u32 \<times> bool)" where
  "step_pro_pop pro =
     (let code = fst pro + (if snd pro then 2 else 1) in (code, (code, snd pro)))"

text \<open>The index \<open>identity2\<close> after \<open>hash\<close> on the rows (1, 1) and (-1, -1).\<close>

definition hashed2 :: "laItqLsh" where
  "hashed2 = identity2\<lparr>tables := [[(0, [1]), (3, [0])]]\<rparr>"

text \<open>The same index after \<open>rehash\<close> on these rows to two tables, with the generator above.\<close>

definition rehashed2 :: "laItqLsh" where
  "rehashed2 = identity2\<lparr>tables := [[(0, [1]), (3, [0])], [(1, [1]), (4, [0])]]\<rparr>"

text \<open>
  A one-table index of five bits with the 5 x 5 identity as projection and as rotation,
  after \<open>hash\<close> on the rows (-1, -1, -1, -1, 1) and (1, 1, 1, 1, -1): the buckets
  00001 and 11110.
\<close>

definition unit5 :: "float list list" where
  "unit5 = [[1, 0, 0, 0, 0], [0, 1, 0, 0, 0], [0, 0, 1, 0, 0], [0, 0, 0, 1, 0], [0, 0, 0, 0, 1]]"

definition identity5 :: laItqLsh where
  "identity5 =
     \<lparr> param = \<lparr> M = 521, L = 1, D = 5, N = 5, S = 5, I = 1 \<rparr>,
       pcsAll = [unit5], omegasAll = [unit5],
       rndArray = [[0, 0, 0, 0, 0]],
       tables = [[]] \<rparr>"

definition hashed5 :: laItqLsh where
  "hashed5 = identity5\<lparr>tables := [[(1, [0]), (30, [1])]]\<rparr>"

text \<open>An index whose parameter \<open>L\<close> is 2.\<close>

definition two_tables :: "laItqLsh" where
  "two_tables =
     \<lparr> param = \<lparr> M = 521, L = 2, D = 2, N = 2, S = 2, I = 1 \<rparr>,
       pcsAll = [[[1, 0], [0, 1]], [[0, 1], [1, 0]]],
       omegasAll = [[[1, 0], [0, 1]], [[1, 0], [0, 1]]],
       rndArray = [[0, 0], [0, 0]],
       tables = [[], []] \<rparr>"

section \<open>Properties of the hasher\<close>

lemma hash_in_range_identity2: "hash_in_range identity2 0 [x, y]"
  by (simp add: hash_in_range_def identity2_def)

lemma dot_2: "dot [a, b] [c, d] = a * c + b * d"
  by (simp add: dot_def upt_rec)

lemma domin_pc_identity2: "domin_pc (pcsAll identity2 ! 0) [x, y] = [x, y]"
  by (simp add: domin_pc_def identity2_def dot_2)

lemma omegasAll_identity2: "omegasAll identity2 ! 0 = [[1, 0], [0, 1]]"
  by (simp add: identity2_def)

lemma getHashFloats_identity2: "getHashFloats identity2 0 [x, y] = Inr [x, y]"
  by (simp add: getHashFloats_def hash_in_range_identity2 domin_pc_identity2
      omegasAll_identity2 getHashFloats_loop_def dot_2 upt_rec)

lemma getHashVal_identity2:
  "getHashVal identity2 0 [x, y] =
     Inr ((if x > 0 then 2 else 0) + (if y > 0 then 1 else 0))"
  by (simp add: getHashVal_def hash_in_range_identity2 domin_pc_identity2
      omegasAll_identity2 getHashVal_loop_def dot_2 upt_rec)

text \<open>
  \<open>getHashVal\<close> packs, MSB first, the bits \<open>product > 0\<close>; it is the packing of
  \<open>getHashBits\<close> whenever no hash float is 0.
\<close>

lemma getHashVal_loop_packs_positive:
  "getHashVal_loop omegas dpc
     = pack_msb_first (map (\<lambda>f. f > 0) (getHashFloats_loop omegas dpc))"
proof -
  have "(\<lambda>hashVal i. let product = dot dpc (omegas ! i)
                      in if product > 0 then hashVal * 2 + 1 else hashVal * 2)
      = (\<lambda>(hashVal::u32) i. hashVal * 2 + (if dot dpc (omegas ! i) > 0 then 1 else 0))"
    by (simp add: fun_eq_iff)
  then show ?thesis
    by (simp add: getHashVal_loop_def pack_msb_first_def getHashFloats_loop_def foldl_map)
qed

lemma getHashVal_loop_packs_bits:
  assumes "list_all (\<lambda>f. f \<noteq> 0) (getHashFloats_loop omegas dpc)"
  shows "getHashVal_loop omegas dpc
     = pack_msb_first (quantization (getHashFloats_loop omegas dpc))"
proof -
  have eq: "map (\<lambda>f. f > 0) (getHashFloats_loop omegas dpc)
      = map (\<lambda>f. f \<ge> 0) (getHashFloats_loop omegas dpc)"
    using assms by (intro map_cong) (auto simp: list_all_iff)
  show ?thesis unfolding getHashVal_loop_packs_positive quantization_def eq ..
qed

text \<open>
  C1. The claim is that \<open>getHashVal\<close> is the MSB-first packing of \<open>getHashBits\<close>, with a
  hash float equal to 0 mapped to the bit 1 in both. \<open>quantization\<close> tests
  \<open>hashFloats[i] >= 0\<close>, \<open>getHashVal\<close> tests \<open>product > 0\<close>: on the vector (1, 0) under
  the identity matrices the hash floats are (1, 0), the bits are 11, whose packing is 3,
  and \<open>getHashVal\<close> returns 2.
\<close>

theorem C1_getHashVal_differs_from_packed_bits:
  "getHashFloats identity2 0 [1, 0] = Inr [1, 0] \<and>
   getHashBits identity2 0 [1, 0] = Inr [True, True] \<and>
   pack_msb_first [True, True] = 3 \<and>
   getHashVal identity2 0 [1, 0] = Inr 2"
  by (simp add: getHashBits_def getHashFloats_identity2 getHashVal_identity2
      quantization_def pack_msb_first_def)

section \<open>The code width invariant\<close>

lemma unat_double_lt: "unat (h::u32) < 2 ^ m \<Longrightarrow> unat (h * 2) < 2 ^ Suc m"
  by (simp add: unat_word_ariths)

lemma unat_double1_lt: "unat (h::u32) < 2 ^ m \<Longrightarrow> unat (h * 2 + 1) < 2 ^ Suc m"
proof -
  assume a: "unat h < 2 ^ m"
  have "unat (h * 2 + 1) = (unat h * 2 + 1) mod 2 ^ 32"
    by (simp add: unat_word_ariths mod_simps)
  also have "\<dots> \<le> unat h * 2 + 1" by (rule mod_less_eq_dividend)
  finally show ?thesis using a by simp
qed

lemma foldl_digits_lt:
  "unat (h::u32) < 2 ^ m \<Longrightarrow>
   unat (foldl (\<lambda>hashVal i. if P i then hashVal * 2 + 1 else hashVal * 2) h js)
     < 2 ^ (m + length js)"
proof (induction js arbitrary: h m)
  case Nil
  then show ?case by simp
next
  case (Cons i js)
  have "unat (if P i then h * 2 + 1 else h * 2) < 2 ^ Suc m"
    using Cons.prems unat_double_lt unat_double1_lt by simp
  from Cons.IH [OF this] show ?case by simp
qed

lemma getHashVal_loop_lt: "unat (getHashVal_loop omegas dpc) < 2 ^ length dpc"
  using foldl_digits_lt [of 0 0 "\<lambda>i. dot dpc (omegas ! i) > 0" "[0..<length dpc]"]
  by (simp add: getHashVal_loop_def Let_def)

lemma trained_hash_in_range:
  assumes "trained idx" and "k < unat (L (param idx))" and "unat (D (param idx)) \<le> length domin"
  shows "hash_in_range idx k domin"
proof -
  from assms have kp: "k < length (pcsAll idx)" and ko: "k < length (omegasAll idx)"
    by (simp_all add: trained_def)
  from assms kp have p: "length (pcsAll idx ! k) = unat (N (param idx))"
    "list_all (\<lambda>row. length row = unat (D (param idx))) (pcsAll idx ! k)"
    by (auto simp: trained_def list_all_length)
  from assms ko have om: "length (omegasAll idx ! k) = unat (N (param idx))"
    "list_all (\<lambda>row. length row = unat (N (param idx))) (omegasAll idx ! k)"
    by (auto simp: trained_def list_all_length)
  show ?thesis
    using kp ko p om assms(3) by (auto simp: hash_in_range_def list_all_length)
qed

lemma getHashVal_bounded:
  assumes "trained idx" and "k < unat (L (param idx))" and "unat (D (param idx)) \<le> length domin"
  shows "\<exists>h. getHashVal idx k domin = Inr h \<and> unat h < 2 ^ unat (N (param idx))"
proof -
  have r: "hash_in_range idx k domin" using assms by (rule trained_hash_in_range)
  from assms have "length (pcsAll idx ! k) = unat (N (param idx))"
    by (auto simp: trained_def list_all_length)
  then have "length (domin_pc (pcsAll idx ! k) domin) = unat (N (param idx))"
    by (simp add: domin_pc_def)
  with getHashVal_loop_lt [of "omegasAll idx ! k" "domin_pc (pcsAll idx ! k) domin"] r
  show ?thesis by (simp add: getHashVal_def)
qed

lemma list_all_map_push_back:
  "list_all P m \<Longrightarrow> (\<And>ids. P (code, ids)) \<Longrightarrow> list_all P (map_push_back code key m)"
  by (induction m) auto

lemma insert_step_inv:
  assumes "insert_inv idx" and "k < length (tables idx)" and "unat h < 2 ^ unat (N (param idx))"
  shows "insert_inv (idx\<lparr>tables := (tables idx)[k := map_push_back h key (tables idx ! k)]\<rparr>)"
proof -
  let ?P = "\<lambda>(code, ids). unat code < 2 ^ unat (N (param idx))"
  from assms have "list_all ?P (tables idx ! k)"
    by (simp add: insert_inv_def codes_bounded_def list_all_length)
  then have "list_all ?P (map_push_back h key (tables idx ! k))"
    using assms(3) by (intro list_all_map_push_back) auto
  then show ?thesis
    using assms by (auto simp: insert_inv_def codes_bounded_def trained_def list_all_length nth_list_update)
qed

lemma insert_loop_inv:
  assumes "insert_inv idx" and "\<forall>k\<in>set ks. k < unat (L (param idx))"
    and "unat (D (param idx)) \<le> length domin"
  shows "\<exists>idx'. insert_loop idx key domin ks = Inr idx' \<and> insert_inv idx' \<and> param idx' = param idx"
  using assms
proof (induction ks arbitrary: idx)
  case Nil
  then show ?case by simp
next
  case (Cons k ks)
  from Cons.prems have k: "k < unat (L (param idx))" by simp
  with Cons.prems obtain h where h: "getHashVal idx k domin = Inr h" "unat h < 2 ^ unat (N (param idx))"
    using getHashVal_bounded [of idx k domin] by (auto simp: insert_inv_def)
  from k Cons.prems have kt: "k < length (tables idx)" by (simp add: insert_inv_def)
  let ?idx = "idx\<lparr>tables := (tables idx)[k := map_push_back h key (tables idx ! k)]\<rparr>"
  have "insert_inv ?idx" using Cons.prems(1) kt h(2) by (rule insert_step_inv)
  moreover have "\<forall>k\<in>set ks. k < unat (L (param ?idx))" using Cons.prems by simp
  moreover have "unat (D (param ?idx)) \<le> length domin" using Cons.prems by simp
  ultimately obtain idx' where "insert_loop ?idx key domin ks = Inr idx'" "insert_inv idx'" "param idx' = param ?idx"
    using Cons.IH [of ?idx] by blast
  then show ?case using h kt by simp
qed

lemma insert_idx_inv:
  assumes "insert_inv idx" and "unat (D (param idx)) \<le> length domin"
  shows "\<exists>idx'. insert_idx idx key domin = Inr idx' \<and> insert_inv idx' \<and> param idx' = param idx"
  unfolding insert_idx_def using assms by (intro insert_loop_inv) auto

lemma inserts_inv:
  assumes "insert_inv idx" and "list_all (\<lambda>(key, domin). unat (D (param idx)) \<le> length domin) kvs"
  shows "\<exists>idx'. inserts idx kvs = Inr idx' \<and> insert_inv idx' \<and> param idx' = param idx"
  using assms
proof (induction kvs arbitrary: idx)
  case Nil
  then show ?case by simp
next
  case (Cons kv kvs)
  obtain key domin where kv: "kv = (key, domin)" by (cases kv)
  with Cons.prems obtain idx1 where 1: "insert_idx idx key domin = Inr idx1" "insert_inv idx1" "param idx1 = param idx"
    using insert_idx_inv [of idx domin key] by auto
  with Cons.prems have "list_all (\<lambda>(key, domin). unat (D (param idx1)) \<le> length domin) kvs" by simp
  from Cons.IH [OF 1(2) this] 1 kv show ?case by auto
qed

lemma hash_loop_inv:
  assumes "insert_inv idx" and "list_all (\<lambda>domin. unat (D (param idx)) \<le> length domin) data"
  shows "\<exists>idx'. hash_loop idx data i = Inr idx' \<and> insert_inv idx' \<and> param idx' = param idx"
  using assms
proof (induction data arbitrary: idx i)
  case Nil
  then show ?case by simp
next
  case (Cons domin data)
  then obtain idx1 where 1: "insert_idx idx (of_nat i) domin = Inr idx1" "insert_inv idx1" "param idx1 = param idx"
    using insert_idx_inv [of idx domin "of_nat i"] by auto
  with Cons.prems have "list_all (\<lambda>domin. unat (D (param idx1)) \<le> length domin) data" by simp
  from Cons.IH [OF 1(2) this, of "Suc i"] 1 show ?case by auto
qed

lemma codes_bounded_no_buckets: "list_all (\<lambda>m. m = []) (tables idx) \<Longrightarrow> codes_bounded idx"
  by (auto simp: codes_bounded_def list_all_iff)

text \<open>
  C9. In an index with trained matrices whose stored codes are all below \<open>2 ^ N\<close>, every
  sequence of \<open>insert(key, vector)\<close> calls, and \<open>hash\<close> on a dataset, run without a
  subscript out of range and leave an index whose stored codes are all below \<open>2 ^ N\<close>,
  that is at most \<open>2 ^ N - 1\<close>: \<open>getHashVal\<close> doubles \<open>hashVal\<close> once per row of the
  projection matrix, \<open>N\<close> times. The vectors have at least \<open>D\<close> entries, and the index
  has a table for each \<open>k\<close> below \<open>L\<close>, as \<open>insert\<close> requires.
\<close>

theorem C9_codes_bounded_preserved:
  assumes "trained idx" and "unat (L (param idx)) \<le> length (tables idx)"
    and "codes_bounded idx"
    and "list_all (\<lambda>(key, domin). unat (D (param idx)) \<le> length domin) kvs"
  shows "(\<exists>idx'. inserts idx kvs = Inr idx' \<and> codes_bounded idx') \<and>
         (\<exists>idx'. hash idx (map snd kvs) = Inr idx' \<and> codes_bounded idx')"
proof -
  have inv: "insert_inv idx" using assms by (simp add: insert_inv_def)
  have "list_all (\<lambda>domin. unat (D (param idx)) \<le> length domin) (map snd kvs)"
    using assms(4) by (auto simp: list_all_iff)
  from hash_loop_inv [OF inv this, of 0] inserts_inv [OF inv assms(4)]
  show ?thesis by (auto simp: hash_def insert_inv_def)
qed

lemma trained_identity2: "trained identity2"
  by (simp add: trained_def identity2_def)

theorem C9_codes_bounded_witness:
  "trained identity2 \<and> codes_bounded identity2 \<and>
   (\<exists>idx'. inserts identity2 [(7, [1, 0]), (8, [-1, 1])] = Inr idx' \<and> codes_bounded idx') \<and>
   (\<exists>idx'. hash identity2 (map snd [(7, [1, 0]), (8, [-1, 1])]) = Inr idx' \<and> codes_bounded idx')"
proof -
  have 1: "unat (L (param identity2)) \<le> length (tables identity2)"
    by (simp add: identity2_def)
  have 2: "codes_bounded identity2"
    by (simp add: codes_bounded_def identity2_def)
  have 3: "list_all (\<lambda>(key, domin). unat (D (param identity2)) \<le> length domin)
             [(7, [1, 0]), (8, [-1, 1])]"
    by (simp add: identity2_def)
  from C9_codes_bounded_preserved [OF trained_identity2 1 2 3] trained_identity2 2
  show ?thesis by simp
qed

section \<open>\<open>unsignedToBools\<close>\<close>

lemma unsignedToBools_loop_in_range:
  "n \<le> length bits \<Longrightarrow> unat num < 2 ^ n \<Longrightarrow> \<forall>i<n. \<not> bits ! i \<Longrightarrow>
   \<exists>bits'. unsignedToBools_loop bits (int n) num = Inr bits' \<and> length bits' = length bits \<and>
     (\<forall>i<length bits. bits' ! i = (if i < n then bit num (n - 1 - i) else bits ! i))"
proof (induction n arbitrary: bits num)
  case 0
  then have "num = 0" by (simp add: unat_eq_0)
  then show ?case by (simp add: unsignedToBools_loop.simps)
next
  case (Suc n)
  show ?case
  proof (cases "num = 0")
    case True
    with Suc.prems show ?thesis by (simp add: unsignedToBools_loop.simps)
  next
    case False
    let ?bits = "bits[n := (num mod 2 \<noteq> 0)]"
    have 1: "n \<le> length ?bits" using Suc.prems by simp
    have 2: "unat (num div 2) < 2 ^ n" using Suc.prems by (simp add: unat_div) 
    have 3: "\<forall>i<n. \<not> ?bits ! i" using Suc.prems by simp
    from Suc.IH [OF 1 2 3] obtain bits' where b: "unsignedToBools_loop ?bits (int n) (num div 2) = Inr bits'"
      "length bits' = length bits"
      "\<forall>i<length bits. bits' ! i = (if i < n then bit (num div 2) (n - 1 - i) else ?bits ! i)"
      by auto
    have step: "unsignedToBools_loop bits (int (Suc n)) num = unsignedToBools_loop ?bits (int n) (num div 2)"
      using False Suc.prems by (subst unsignedToBools_loop.simps) (simp add: word_greater_zero_iff)
    have "bits' ! i = (if i < Suc n then bit num (Suc n - 1 - i) else bits ! i)" if "i < length bits" for i
    proof (cases "i < n")
      case True
      then have "bits' ! i = bit (num div 2) (n - 1 - i)" using b(3) that by simp
      also have "\<dots> = bit num (Suc (n - 1 - i))" by (simp add: bit_Suc)
      also have "Suc (n - 1 - i) = Suc n - 1 - i" using True by simp
      finally show ?thesis using True by simp
    next
      case False
      then show ?thesis using b(3) that Suc.prems(1)
        by (cases "i = n") (auto simp: bit_0 mod_2_eq_odd)
    qed
    with b step show ?thesis by auto
  qed
qed

lemma unsignedToBools_loop_out_of_range:
  "n \<le> length bits \<Longrightarrow> 2 ^ n \<le> unat num \<Longrightarrow> unsignedToBools_loop bits (int n) num = Inl OutOfBounds"
proof (induction n arbitrary: bits num)
  case 0
  then have "num \<noteq> 0" by auto
  then show ?case by (subst unsignedToBools_loop.simps) (simp add: word_greater_zero_iff)
next
  case (Suc n)
  then have nz: "num \<noteq> 0" by auto
  let ?bits = "bits[n := (num mod 2 \<noteq> 0)]"
  have 1: "n \<le> length ?bits" using Suc.prems by simp
  have 2: "2 ^ n \<le> unat (num div 2)" using Suc.prems by (simp add: unat_div)
  have step: "unsignedToBools_loop bits (int (Suc n)) num = unsignedToBools_loop ?bits (int n) (num div 2)"
    using nz Suc.prems by (subst unsignedToBools_loop.simps) (simp add: word_greater_zero_iff)
  with Suc.IH [OF 1 2] show ?case by simp
qed

lemma msb_first_value_snoc: "msb_first_value (bs @ [b]) = 2 * msb_first_value bs + (if b then 1 else 0)"
  by (simp add: msb_first_value_def)

lemma msb_first_value_bits:
  "msb_first_value (map (\<lambda>i. bit (num::u32) (n - Suc i)) [0..<n]) = unat num mod 2 ^ n"
proof (induction n arbitrary: num)
  case 0
  then show ?case by (simp add: msb_first_value_def)
next
  case (Suc n)
  have eq: "map (\<lambda>i. bit num (Suc n - Suc i)) [0..<Suc n]
      = map (\<lambda>i. bit (num div 2) (n - Suc i)) [0..<n] @ [bit num 0]"
    by (auto simp: bit_Suc Suc_diff_Suc simp flip: bit_Suc)
  have "msb_first_value (map (\<lambda>i. bit num (Suc n - Suc i)) [0..<Suc n])
      = 2 * (unat num div 2 mod 2 ^ n) + (if bit num 0 then 1 else 0)"
    unfolding eq by (simp add: msb_first_value_snoc Suc.IH unat_div)
  also have "(if bit num 0 then 1 else 0) = unat num mod 2"
  proof -
    have "bit (unat num) 0 = bit num 0"
      by (simp add: bit_unsigned_iff)
    then have "bit num 0 = odd (unat num)" by (simp add: bit_0)
    then show ?thesis by (simp add: odd_iff_mod_2_eq_one)
  qed
  also have "2 * (unat num div 2 mod 2 ^ n) + unat num mod 2 = unat num mod 2 ^ Suc n"
    using mod_mult2_eq [of "unat num" 2 "2 ^ n"] by simp
  finally show ?case .
qed


lemma sint_small: "unat (w::u32) < 2 ^ 31 \<Longrightarrow> sint w = int (unat w)"
proof -
  assume a: "unat w < 2 ^ 31"
  have "uint w < 2 ^ 31" using a by (simp flip: of_nat_less_iff [where 'a=int])
  moreover have "- (2 ^ 31) \<le> uint w"
  proof -
    have "- (2 ^ 31) \<le> (0::int)" by simp
    also have "0 \<le> uint w" by simp
    finally show ?thesis .
  qed
  ultimately have "signed_take_bit 31 (uint w) = uint w"
    by (intro signed_take_bit_int_eq_self)
  then show ?thesis by (simp add: sint_uint)
qed

lemma unsignedToBools_in_range:
  assumes "unat (N (param idx)) < 2 ^ 31" and "unat num < 2 ^ unat (N (param idx))"
  shows "unsignedToBools idx num =
           Inr (map (\<lambda>i. bit num (unat (N (param idx)) - Suc i)) [0..<unat (N (param idx))])"
proof -
  let ?n = "unat (N (param idx))"
  have s: "sint (N (param idx)) = int ?n" using assms(1) by (rule sint_small)
  from unsignedToBools_loop_in_range [of ?n "replicate ?n False" num] assms(2)
  obtain bits' where b: "unsignedToBools_loop (replicate ?n False) (int ?n) num = Inr bits'"
    "length bits' = ?n" "\<forall>i<?n. bits' ! i = bit num (?n - 1 - i)"
    by auto
  have "bits' = map (\<lambda>i. bit num (?n - Suc i)) [0..<?n]"
    using b(2,3) by (intro nth_equalityI) auto
  with b(1) s show ?thesis by (simp add: unsignedToBools_def)
qed

text \<open>
  C10. For \<open>num < 2 ^ N\<close> every write of \<open>unsignedToBools\<close> is inside the vector, and the
  result has \<open>N\<close> entries whose MSB-first binary value is \<open>num\<close>; for \<open>num \<ge> 2 ^ N\<close>
  the write subscript falls below zero. \<open>N\<close> is below \<open>2 ^ 31\<close>, so that
  \<open>int nBits = param.N\<close> keeps its value.
\<close>

theorem C10_unsignedToBools:
  assumes "unat (N (param idx)) < 2 ^ 31"
  shows "(unat num < 2 ^ unat (N (param idx)) \<longrightarrow>
           (\<exists>bits. unsignedToBools idx num = Inr bits \<and> length bits = unat (N (param idx)) \<and>
              msb_first_value bits = unat num)) \<and>
         (2 ^ unat (N (param idx)) \<le> unat num \<longrightarrow> unsignedToBools idx num = Inl OutOfBounds)"
proof (intro conjI impI)
  assume lt: "unat num < 2 ^ unat (N (param idx))"
  show "\<exists>bits. unsignedToBools idx num = Inr bits \<and> length bits = unat (N (param idx)) \<and>
              msb_first_value bits = unat num"
    using unsignedToBools_in_range [OF assms lt] lt by (simp add: msb_first_value_bits)
next
  assume ge: "2 ^ unat (N (param idx)) \<le> unat num"
  have s: "sint (N (param idx)) = int (unat (N (param idx)))" using assms by (rule sint_small)
  from unsignedToBools_loop_out_of_range [of "unat (N (param idx))" "replicate (unat (N (param idx))) False" num] ge s
  show "unsignedToBools idx num = Inl OutOfBounds"
    by (simp add: unsignedToBools_def)
qed


theorem C10_unsignedToBools_witness:
  "(\<exists>bits. unsignedToBools identity2 2 = Inr bits \<and> length bits = 2 \<and>
      msb_first_value bits = 2) \<and>
   unsignedToBools identity2 5 = Inl OutOfBounds"
  using C10_unsignedToBools [of identity2 2] C10_unsignedToBools [of identity2 5]
  by (simp add: identity2_def)

section \<open>The strategies on concrete indexes\<close>

lemma hash_in_range_tables [simp]:
  "hash_in_range (idx\<lparr>tables := t\<rparr>) = hash_in_range idx"
  by (simp add: fun_eq_iff hash_in_range_def)

lemma getHashVal_tables [simp]: "getHashVal (idx\<lparr>tables := t\<rparr>) k domin = getHashVal idx k domin"
  by (simp add: getHashVal_def)

lemma getHashFloats_tables [simp]:
  "getHashFloats (idx\<lparr>tables := t\<rparr>) k domin = getHashFloats idx k domin"
  by (simp add: getHashFloats_def)

lemma getHashBits_tables [simp]:
  "getHashBits (idx\<lparr>tables := t\<rparr>) k domin = getHashBits idx k domin"
  by (simp add: getHashBits_def)

lemma replicate_2: "replicate 2 x = [x, x]"
  by (simp add: numeral_2_eq_2)

lemma hashed2_ok: "hash identity2 [[1, 1], [-1, -1]] = Inr hashed2"
  by (simp add: hash_def insert_idx_def getHashVal_identity2 identity2_def hashed2_def getHashVal_def hash_in_range_def
      domin_pc_def dot_2 getHashVal_loop_def upt_rec)

lemma rehashed2_ok: "rehash step_pro_init step_pro_pop hashed2 [[1, 1], [-1, -1]] 2 = Inr rehashed2"
  apply (simp add: rehash_def hashed2_def  identity2_def rehashed2_def getHashVal_def getHashBits_def getHashFloats_def hash_in_range_def
      domin_pc_def dot_2 getHashVal_loop_def getHashFloats_loop_def upt_rec quantization_def step_pro_init_def step_pro_pop_def pack_msb_first_def replicate_2)
  done


lemma getHashVal_rehashed2:
  "getHashVal rehashed2 0 [x, y] =
     Inr ((if x > 0 then 2 else 0) + (if y > 0 then 1 else 0))"
  by (simp add: rehashed2_def getHashVal_identity2)

lemma getHashFloats_rehashed2: "getHashFloats rehashed2 0 [x, y] = Inr [x, y]"
  by (simp add: rehashed2_def getHashFloats_identity2)

lemma params_rehashed2: "L (param rehashed2) = 1" "N (param rehashed2) = 2"
  "tables rehashed2 = [[(0, [1]), (3, [0])], [(1, [1]), (4, [0])]]"
  by (simp_all add: rehashed2_def identity2_def)

lemma query_rehashed2: "query rehashed2 [1, 1] = Inr \<lparr> probed = [3], scanned = [0] \<rparr>"
  by (simp add: query_def query_table_def getHashVal_rehashed2 params_rehashed2 probe_def
      reset_scanner_def bucket_of_def)

lemma replicate_3: "replicate 3 x = [x, x, x]"
  by (simp add: numeral_3_eq_3)

lemma queryRanking_rehashed2:
  "queryRanking rehashed2 [1, 1] 2 = Inr \<lparr> probed = [3, 0], scanned = [0, 1] \<rparr>"
  by (simp add: queryRanking_def queryRanking_table_def getHashVal_rehashed2 params_rehashed2
      replicate_3 hamDist_loop.simps advance.simps ranking_probe_loop.simps probe_def
      reset_scanner_def bucket_of_def)

lemma quantum_up_numeral:
  "quantum_up (numeral k) a q =
     (if 2 ^ 24 * q \<le> a then quantum_up (pred_numeral k) a (2 * q) else q)"
  by (simp add: numeral_eq_Suc)

lemma quantum_down_numeral:
  "quantum_down (numeral k) a q =
     (if a < 2 ^ 23 * q then quantum_down (pred_numeral k) a (q / 2) else q)"
  by (simp add: numeral_eq_Suc)

lemma binary32_round_small: "binary32_round 1 = 1" "binary32_round 3 = 3"
  unfolding binary32_round_def Let_def
  by (simp_all add: quantum_down_numeral round_half_even_def)

lemma binary32_add_small: "binary32_add 0 1 = 1" "binary32_add 1 2 = 3"
  by (simp_all add: binary32_add_def binary32_round_small)

lemma queryRankingByLoss_rehashed2:
  "queryRankingByLoss binary32_add (sort_key fst) rehashed2 [1, 2] 2 =
     Inr \<lparr> probed = [3, 0], scanned = [0, 1] \<rparr>"
  by (simp add: queryRankingByLoss_def queryRankingByLoss_table_def getHashBits_def
      getHashFloats_rehashed2 params_rehashed2 unsignedToBools_def unsignedToBools_loop.simps
      quantization_def loss_loop_def upt_rec binary32_add_small probe_def reset_scanner_def
      bucket_of_def)

lemma queryByLoss_rehashed2:
  "queryByLoss step_pro_init step_pro_pop rehashed2 [1, 1] 2 True = Inr \<lparr> probed = [3, 4], scanned = [0] \<rparr>"
  by (simp add: queryByLoss_def queryByLoss_table_def getHashBits_def getHashFloats_rehashed2 getHashVal_rehashed2 params_rehashed2
      quantization_def generated_probe_loop.simps probe_def step_pro_init_def step_pro_pop_def pack_msb_first_def
      reset_scanner_def bucket_of_def)

lemma getHashVal_hashed2:
  "getHashVal hashed2 0 [x, y] =
     Inr ((if x > 0 then 2 else 0) + (if y > 0 then 1 else 0))"
  by (simp add: hashed2_def getHashVal_identity2)

lemma getHashFloats_hashed2: "getHashFloats hashed2 0 [x, y] = Inr [x, y]"
  by (simp add: hashed2_def getHashFloats_identity2)

lemma params_hashed2: "L (param hashed2) = 1" "N (param hashed2) = 2"
  "tables hashed2 = [[(0, [1]), (3, [0])]]"
  by (simp_all add: hashed2_def identity2_def)

lemma queryByLoss_hashed2:
  "queryByLoss step_pro_init step_pro_pop hashed2 [1, 1] 3 flag =
     Inr \<lparr> probed = [3, 4, 5], scanned = [0] \<rparr>"
  by (simp add: queryByLoss_def queryByLoss_table_def getHashBits_def getHashFloats_hashed2
      getHashVal_hashed2 params_hashed2 quantization_def generated_probe_loop.simps probe_def
      step_pro_init_def step_pro_pop_def pack_msb_first_def reset_scanner_def bucket_of_def)

text \<open>The argument \<open>withMeanAndSTD\<close> of \<open>queryByLoss\<close> has no effect, whatever the generator.\<close>

lemma queryByLoss_flag_unused:
  "queryByLoss pro_init pro_pop idx domin maxNumBuckets withMeanAndSTD
     = queryByLoss pro_init pro_pop idx domin maxNumBuckets False"
  by (simp add: queryByLoss_def queryByLoss_table_def cong: sum.case_cong)

text \<open>
  C4. The claim is that \<open>queryByLoss\<close> builds the generator with the caller's
  \<open>withMeanAndSTD\<close>. The source builds it with \<open>Probing pro(hashBits, hashFloats, false)\<close>
  whatever the argument is. Called with the flag set, on the query (1, 1) and a budget of
  3, it probes the codes 3, 4, 5, those of the generator built without the flag; the
  generator built with the flag returns 5 and 7.
\<close>

theorem C4_queryByLoss_drops_flag:
  "queryByLoss step_pro_init step_pro_pop hashed2 [1, 1] 3 True =
     Inr \<lparr> probed = [3, 4, 5], scanned = [0] \<rparr> \<and>
   map (nth_pop step_pro_pop (step_pro_init [True, True] [1, 1] False)) [0, 1] = [4, 5] \<and>
   map (nth_pop step_pro_pop (step_pro_init [True, True] [1, 1] True)) [0, 1] = [5, 7]"
  by (simp add: queryByLoss_hashed2 step_pro_init_def step_pro_pop_def pack_msb_first_def)

text \<open>
  C5. The claim is that a direct strategy fails its assertion whenever the index holds
  more than one populated table. The assertion is \<open>assert(param.L == 1)\<close>, and \<open>rehash\<close>
  changes \<open>tables\<close> but not \<open>param.L\<close>: after \<open>rehash\<close> to two tables, both populated,
  all four direct strategies pass the check and probe table 0.
\<close>

theorem C5_direct_strategies_proceed_after_rehash:
  "rehash step_pro_init step_pro_pop hashed2 [[1, 1], [-1, -1]] 2 = Inr rehashed2 \<and>
   length (tables rehashed2) = 2 \<and> tables rehashed2 ! 0 \<noteq> [] \<and> tables rehashed2 ! 1 \<noteq> [] \<and>
   query rehashed2 [1, 1] = Inr \<lparr> probed = [3], scanned = [0] \<rparr> \<and>
   queryRanking rehashed2 [1, 1] 2 = Inr \<lparr> probed = [3, 0], scanned = [0, 1] \<rparr> \<and>
   queryRankingByLoss binary32_add (sort_key fst) rehashed2 [1, 2] 2 =
     Inr \<lparr> probed = [3, 0], scanned = [0, 1] \<rparr> \<and>
   queryByLoss step_pro_init step_pro_pop rehashed2 [1, 1] 2 True =
     Inr \<lparr> probed = [3, 4], scanned = [0] \<rparr>"
  by (simp add: rehashed2_ok query_rehashed2 queryRanking_rehashed2
      queryRankingByLoss_rehashed2 queryByLoss_rehashed2 params_rehashed2)

text \<open>
  C5, as the source has it. Each direct strategy starts with \<open>assert(param.L == 1)\<close>:
  called on an index whose parameter \<open>L\<close> is not 1, it fails that assertion.
\<close>

theorem C5_direct_strategies_assert_L:
  assumes "L (param idx) \<noteq> 1"
  shows "query idx domin = Inl AssertionFailed \<and>
         queryRanking idx domin maxNumBuckets = Inl AssertionFailed \<and>
         queryRankingByLoss float_add std_sort idx domin maxNumBuckets = Inl AssertionFailed \<and>
         queryByLoss pro_init pro_pop idx domin maxNumBuckets withMeanAndSTD = Inl AssertionFailed"
  using assms by (simp add: query_def queryRanking_def queryRankingByLoss_def queryByLoss_def)

theorem C5_direct_strategies_assert_L_witness:
  "L (param two_tables) \<noteq> 1 \<and>
   query two_tables [1, 1] = Inl AssertionFailed \<and>
   queryRanking two_tables [1, 1] 2 = Inl AssertionFailed \<and>
   queryRankingByLoss binary32_add (sort_key fst) two_tables [1, 1] 2 = Inl AssertionFailed \<and>
   queryByLoss step_pro_init step_pro_pop two_tables [1, 1] 2 True = Inl AssertionFailed"
proof -
  have l: "L (param two_tables) \<noteq> 1" by (simp add: two_tables_def)
  from C5_direct_strategies_assert_L [OF l] l show ?thesis by simp
qed

section \<open>\<open>push_back\<close> into a \<open>std::map\<close>\<close>

lemma keys_map_push_back: "fst ` set (map_push_back code key m) = insert code (fst ` set m)"
  by (induction code key m rule: map_push_back.induct) (simp_all add: insert_commute)

lemma sorted_map_push_back: "sorted_map m \<Longrightarrow> sorted_map (map_push_back code key m)"
proof (induction m)
  case Nil
  then show ?case by (simp add: sorted_map_def)
next
  case (Cons p m)
  obtain c ids where p: "p = (c, ids)" by (cases p)
  from Cons.prems have m: "sorted_map m" and lt: "\<forall>x\<in>fst ` set m. c < x"
    by (auto simp: sorted_map_def p)
  show ?case
  proof (cases "code < c")
    case True
    with Cons.prems show ?thesis by (auto simp: p sorted_map_def)
  next
    case False
    show ?thesis
    proof (cases "code = c")
      case True
      with Cons.prems show ?thesis by (auto simp: p sorted_map_def)
    next
      case ne: False
      with False have "c < code" by simp
      moreover have "sorted_map (map_push_back code key m)" using m by (rule Cons.IH)
      ultimately show ?thesis
        using False ne lt keys_map_push_back [of code key m]
        by (auto simp: p sorted_map_def)
    qed
  qed
qed

lemma map_of_below_sorted:
  "sorted_map m \<Longrightarrow> \<forall>x\<in>fst ` set m. code < x \<Longrightarrow> map_of m code = None"
  by (induction m) (auto simp: sorted_map_def)

lemma bucket_of_map_push_back:
  "sorted_map m \<Longrightarrow>
   bucket_of (map_push_back code' key m) code =
     bucket_of m code @ (if code = code' then [key] else [])"
proof (induction m)
  case Nil
  then show ?case by (simp add: bucket_of_def)
next
  case (Cons p m)
  obtain c ids where p: "p = (c, ids)" by (cases p)
  from Cons.prems have m: "sorted_map m" and lt: "\<forall>x\<in>fst ` set m. c < x"
    by (auto simp: sorted_map_def p)
  have none: "map_of m code' = None" if "code' < c \<or> code' = c"
    using that lt by (intro map_of_below_sorted [OF m]) auto
  show ?case
    using Cons.IH [OF m] none by (auto simp: p bucket_of_def)
qed


section \<open>\<open>rehash\<close>\<close>

lemma rehash_code_tables [simp]:
  "rehash_code pro_init pro_pop (idx\<lparr>tables := t\<rparr>) domin k = rehash_code pro_init pro_pop idx domin k"
  by (simp add: rehash_code_def cong: sum.case_cong)

lemma rows_with_code_tables [simp]:
  "rows_with_code pro_init pro_pop (idx\<lparr>tables := t\<rparr>) k code rows
     = rows_with_code pro_init pro_pop idx k code rows"
  by (simp add: rows_with_code_def)

lemma rehash_fanout_nth:
  "a \<le> length tbs \<Longrightarrow>
   length (rehash_fanout pro_pop i [a..<length tbs] pro tbs) = length tbs \<and>
   (\<forall>k<length tbs. rehash_fanout pro_pop i [a..<length tbs] pro tbs ! k =
      (if a \<le> k then map_push_back (nth_pop pro_pop pro (k - a)) i (tbs ! k) else tbs ! k))"
proof (induction "length tbs - a" arbitrary: a pro tbs)
  case 0
  then show ?case by simp
next
  case (Suc d)
  then have lt: "a < length tbs" by simp
  obtain h pro' where pop: "pro_pop pro = (h, pro')" by (cases "pro_pop pro")
  let ?tbs = "tbs[a := map_push_back h i (tbs ! a)]"
  have len: "length ?tbs = length tbs" by simp
  have d: "d = length ?tbs - Suc a" using Suc.hyps(2) by simp
  have le: "Suc a \<le> length ?tbs" using lt by simp
  note ih = Suc.hyps(1) [OF d le, of pro', unfolded len]
  have unf: "rehash_fanout pro_pop i [a..<length tbs] pro tbs
      = rehash_fanout pro_pop i [Suc a..<length tbs] pro' ?tbs"
    using lt pop by (simp add: upt_conv_Cons)
  show ?case
  proof (intro conjI allI impI)
    show "length (rehash_fanout pro_pop i [a..<length tbs] pro tbs) = length tbs"
      using ih unf by simp
  next
    fix k assume k: "k < length tbs"
    show "rehash_fanout pro_pop i [a..<length tbs] pro tbs ! k =
      (if a \<le> k then map_push_back (nth_pop pro_pop pro (k - a)) i (tbs ! k) else tbs ! k)"
    proof (cases "Suc a \<le> k")
      case True
      then obtain j where j: "k - a = Suc j" "k - Suc a = j" by (cases "k - a") auto
      with True k ih unf pop show ?thesis by simp
    next
      case False
      with k ih unf pop lt show ?thesis by (cases "k = a") auto
    qed
  qed
qed


lemma rehash_row_tables:
  assumes "tables idx \<noteq> []" and "list_all sorted_map (tables idx)"
    and "hash_in_range idx 0 domin"
    and "getHashVal idx 0 domin = Inr hashVal" and "getHashBits idx 0 domin = Inr hashBits"
    and "getHashFloats idx 0 domin = Inr hashFloats"
    and tbs: "tbs = rehash_fanout pro_pop i [1..<length (tables idx)]
                    (pro_init hashBits hashFloats False)
                    ((tables idx)[0 := map_push_back hashVal i (tables idx ! 0)])"
  shows "length tbs = length (tables idx) \<and> list_all sorted_map tbs \<and>
     (\<forall>k<length tbs. \<forall>code. bucket_of (tbs ! k) code =
        bucket_of (tables idx ! k) code @
        (if rehash_code pro_init pro_pop idx domin k = Inr code then [i] else []))"
proof -
  let ?tbs0 = "(tables idx)[0 := map_push_back hashVal i (tables idx ! 0)]"
  let ?pro = "pro_init hashBits hashFloats False"
  have len0: "length ?tbs0 = length (tables idx)" by simp
  have pos: "1 \<le> length ?tbs0" using assms(1) by (cases "tables idx") auto
  note f = rehash_fanout_nth [OF pos, of pro_pop i ?pro, unfolded len0 tbs [symmetric]]
  have nth: "tbs ! k = map_push_back (if k = 0 then hashVal else nth_pop pro_pop ?pro (k - 1)) i
                         (tables idx ! k)"
    if "k < length (tables idx)" for k
    using f that by (cases "k = 0") auto
  have code: "rehash_code pro_init pro_pop idx domin k
      = Inr (if k = 0 then hashVal else nth_pop pro_pop ?pro (k - 1))" for k
    using assms(4,5,6) by (simp add: rehash_code_def)
  have sorted: "sorted_map (tables idx ! k)" if "k < length (tables idx)" for k
    using assms(2) that by (simp add: list_all_length)
  show ?thesis
  proof (intro conjI allI impI)
    show "length tbs = length (tables idx)" using f by simp
    have "sorted_map (tbs ! k)" if "k < length (tables idx)" for k
      unfolding nth [OF that] using sorted [OF that] by (rule sorted_map_push_back)
    then show "list_all sorted_map tbs"
      using f by (simp add: list_all_length)
  next
    fix k code assume "k < length tbs"
    then have k: "k < length (tables idx)" using f by simp
    show "bucket_of (tbs ! k) code = bucket_of (tables idx ! k) code @
        (if rehash_code pro_init pro_pop idx domin k = Inr code then [i] else [])"
      unfolding nth [OF k] code bucket_of_map_push_back [OF sorted [OF k]] by auto
  qed
qed

lemma rehash_loop_correct:
  assumes "tables idx \<noteq> []" and "list_all sorted_map (tables idx)"
    and "list_all (hash_in_range idx 0) rest"
  shows "\<exists>tbs. rehash_loop pro_init pro_pop idx rest i = Inr (idx\<lparr>tables := tbs\<rparr>) \<and>
     length tbs = length (tables idx) \<and> list_all sorted_map tbs \<and>
     (\<forall>k<length tbs. \<forall>code. bucket_of (tbs ! k) code =
        bucket_of (tables idx ! k) code @
        rows_with_code pro_init pro_pop idx k code (enumerate i rest))"
  using assms
proof (induction rest arbitrary: idx i)
  case Nil
  have "idx\<lparr>tables := tables idx\<rparr> = idx" by simp
  with Nil show ?case by (auto simp: rows_with_code_def intro!: exI [of _ "tables idx"])
next
  case (Cons domin rest)
  from Cons.prems have r: "hash_in_range idx 0 domin" by simp
  obtain hashVal hashFloats where h: "getHashVal idx 0 domin = Inr hashVal"
    "getHashFloats idx 0 domin = Inr hashFloats"
    "getHashBits idx 0 domin = Inr (quantization hashFloats)"
    using r by (simp add: getHashVal_def getHashFloats_def getHashBits_def)
  define tbs1 where "tbs1 = rehash_fanout pro_pop (of_nat i) [1..<length (tables idx)]
                    (pro_init (quantization hashFloats) hashFloats False)
                    ((tables idx)[0 := map_push_back hashVal (of_nat i) (tables idx ! 0)])"
  note row = rehash_row_tables [where pro_pop = pro_pop and pro_init = pro_init
      and i = "of_nat i" and tbs = tbs1, OF Cons.prems(1,2) r h(1) h(3) h(2) tbs1_def]
  let ?idx1 = "idx\<lparr>tables := tbs1\<rparr>"
  have 1: "tables ?idx1 \<noteq> []" using row Cons.prems(1) by auto
  have 2: "list_all sorted_map (tables ?idx1)" using row by simp
  have 3: "list_all (hash_in_range ?idx1 0) rest" using Cons.prems(3) by simp
  from Cons.IH [OF 1 2 3, of "Suc i"] obtain tbs where
    t: "rehash_loop pro_init pro_pop ?idx1 rest (Suc i) = Inr (idx\<lparr>tables := tbs\<rparr>)"
      "length tbs = length tbs1" "list_all sorted_map tbs"
      "\<forall>k<length tbs. \<forall>code. bucket_of (tbs ! k) code =
        bucket_of (tbs1 ! k) code @
        rows_with_code pro_init pro_pop idx k code (enumerate (Suc i) rest)"
    by auto
  have step: "rehash_loop pro_init pro_pop idx (domin # rest) i
      = rehash_loop pro_init pro_pop ?idx1 rest (Suc i)"
    using h Cons.prems(1) by (simp add: tbs1_def)
  have "bucket_of (tbs ! k) code = bucket_of (tables idx ! k) code @
        rows_with_code pro_init pro_pop idx k code (enumerate i (domin # rest))"
    if "k < length tbs" for k code
    using t(4) t(2) row that by (simp add: rows_with_code_def)
  with t step row show ?case by (intro exI [of _ tbs]) simp
qed

text \<open>
  C8. \<open>rehash(data, 1)\<close> returns the index as it is. For \<open>numTables > 1\<close>, on a dataset
  whose rows table 0 hashes in range, \<open>rehash\<close> leaves \<open>numTables\<close> tables and changes
  nothing else; in table 0 the bucket of a code holds, in row order, the rows whose
  \<open>getHashVal\<close> under table 0 is that code, and in table \<open>k \<ge> 1\<close> the rows for which the
  \<open>k\<close>-th \<open>pop\<close> of the generator built from the row's bits and floats is that code.
\<close>

theorem C8_rehash_fan_out:
  "rehash pro_init pro_pop idx data 1 = Inr idx \<and>
   (1 < numTables \<and> list_all (hash_in_range idx 0) data \<longrightarrow>
     (\<exists>tbs. rehash pro_init pro_pop idx data numTables = Inr (idx\<lparr>tables := tbs\<rparr>) \<and>
        length tbs = nat numTables \<and>
        (\<forall>k<nat numTables. \<forall>code.
           bucket_of (tbs ! k) code = rows_with_code pro_init pro_pop idx k code (enumerate 0 data))))"
proof (intro conjI impI)
  show "rehash pro_init pro_pop idx data 1 = Inr idx" by (simp add: rehash_def)
next
  assume a: "1 < numTables \<and> list_all (hash_in_range idx 0) data"
  let ?idx0 = "idx\<lparr>tables := replicate (nat numTables) []\<rparr>"
  have 1: "tables ?idx0 \<noteq> []" using a by simp
  have 2: "list_all sorted_map (tables ?idx0)" by (simp add: list_all_length sorted_map_def)
  have 3: "list_all (hash_in_range ?idx0 0) data" using a by simp
  from rehash_loop_correct [OF 1 2 3, of pro_init pro_pop 0] a
  show "\<exists>tbs. rehash pro_init pro_pop idx data numTables = Inr (idx\<lparr>tables := tbs\<rparr>) \<and>
        length tbs = nat numTables \<and>
        (\<forall>k<nat numTables. \<forall>code.
           bucket_of (tbs ! k) code = rows_with_code pro_init pro_pop idx k code (enumerate 0 data))"
    by (auto simp: rehash_def bucket_of_def)
qed


theorem C8_rehash_fan_out_witness:
  "rehash step_pro_init step_pro_pop hashed2 [[1, 1], [-1, -1]] 1 = Inr hashed2 \<and>
   (\<exists>tbs. rehash step_pro_init step_pro_pop hashed2 [[1, 1], [-1, -1]] 2
             = Inr (hashed2\<lparr>tables := tbs\<rparr>) \<and>
      length tbs = 2 \<and>
      (\<forall>k<2. \<forall>code. bucket_of (tbs ! k) code =
         rows_with_code step_pro_init step_pro_pop hashed2 k code
           (enumerate 0 [[1, 1], [-1, -1]])))"
proof -
  have "hash_in_range hashed2 0 [x, y]" for x y
    by (simp add: hashed2_def hash_in_range_identity2)
  then have "(1::int) < 2 \<and> list_all (hash_in_range hashed2 0) [[1, 1], [-1, -1]]"
    by simp
  with C8_rehash_fan_out [of step_pro_init step_pro_pop hashed2 "[[1, 1], [-1, -1]]" 2]
  show ?thesis by (simp add: rehash_def)
qed

section \<open>\<open>save\<close> and \<open>load\<close>\<close>

lemma read_unsigneds_written:
  "read_unsigneds (length ws) (map U ws @ file) = Inr (ws, file)"
  by (induction ws) simp_all

lemma read_floats_written:
  "read_floats (length xs) (map F xs @ file) = Inr (xs, file)"
  by (induction xs) simp_all

lemma map_assign_above:
  "\<forall>c\<in>fst ` set m. c < code \<Longrightarrow> map_assign code v m = m @ [(code, v)]"
  by (induction m) auto

lemma load_buckets_written:
  "sorted_map (acc @ m) \<Longrightarrow> list_all (\<lambda>(code, ids). length ids < 2 ^ 32) m \<Longrightarrow>
   load_buckets (length m) acc (concat (map save_bucket m) @ file) = Inr (acc @ m, file)"
proof (induction m arbitrary: acc)
  case Nil
  then show ?case by simp
next
  case (Cons b m)
  obtain target ids where b: "b = (target, ids)" by (cases b)
  from Cons.prems(2) have len: "length ids < 2 ^ 32" by (simp add: b)
  then have u: "unat (of_nat (length ids) :: u32) = length ids"
    by (simp add: unat_of_nat)
  from Cons.prems(1) have above: "\<forall>c\<in>fst ` set acc. c < target"
    by (auto simp: sorted_map_def sorted_wrt_append b)
  have s: "sorted_map ((acc @ [(target, ids)]) @ m)" using Cons.prems(1) by (simp add: b)
  have r: "list_all (\<lambda>(code, ids). length ids < 2 ^ 32) m" using Cons.prems(2) by simp
  from Cons.IH [OF s r] show ?case
    by (simp add: b save_bucket_def u read_unsigneds_written map_assign_above [OF above])
qed

lemma load_rows_written:
  "list_all (\<lambda>(p, om). length p = d \<and> length om = n) rows \<Longrightarrow>
   load_rows (length rows) d n (concat (map (\<lambda>(p, om). map F p @ map F om) rows) @ file)
     = Inr (rows, file)"
proof (induction rows)
  case Nil
  then show ?case by simp
next
  case (Cons r rows)
  obtain p om where r: "r = (p, om)" by (cases r)
  from Cons.prems have l: "length p = d" "length om = n" by (simp_all add: r)
  from Cons.prems have "list_all (\<lambda>(p, om). length p = d \<and> length om = n) rows" by simp
  from Cons.IH [OF this] show ?case
    using read_floats_written [of p] read_floats_written [of om] l
    by (simp add: r)
qed


lemma rows_as_zip:
  assumes "length pcs = n" and "length oms = n"
    and "list_all (\<lambda>row. length row = d) pcs" and "list_all (\<lambda>row. length row = n) oms"
  shows "map (\<lambda>j. map F (take d (pcs ! j)) @ map F (take n (oms ! j))) [0..<n]
       = map (\<lambda>(p, om). map F p @ map F om) (zip pcs oms)"
  using assms by (intro nth_equalityI) (auto simp: list_all_length)

lemma nths_as_take: "l \<le> length xs \<Longrightarrow> map ((!) xs) [0..<l] = take l xs"
  by (intro nth_equalityI) auto

lemma resize_all_default: "list_all (\<lambda>x. x = d) xs \<Longrightarrow> resize n d xs = replicate n d"
proof -
  assume "list_all (\<lambda>x. x = d) xs"
  then have "xs = replicate (length xs) d"
    by (intro nth_equalityI) (auto simp: list_all_length)
  then have "resize n d xs = take n (replicate (length xs) d) @ replicate (n - length xs) d"
    by (simp add: resize_def)
  also have "\<dots> = replicate n d"
    by (simp flip: replicate_add) 
  finally show ?thesis .
qed

lemma saveable_table:
  assumes "saveable idx" and "i < unat (L (param idx))"
  shows "unat (N (param idx)) \<le> length (rndArray idx ! i)"
    and "sorted_map (tables idx ! i)" and "length (tables idx ! i) < 2 ^ 32"
    and "list_all (\<lambda>(code, ids). length ids < 2 ^ 32) (tables idx ! i)"
    and "length (pcsAll idx ! i) = unat (N (param idx))"
    and "length (omegasAll idx ! i) = unat (N (param idx))"
    and "list_all (\<lambda>row. length row = unat (D (param idx))) (pcsAll idx ! i)"
    and "list_all (\<lambda>row. length row = unat (N (param idx))) (omegasAll idx ! i)"
    and "save_in_range idx i"
proof -
  from assms have t: "i < length (tables idx)" and r: "i < length (rndArray idx)"
    and p: "i < length (pcsAll idx)" and om: "i < length (omegasAll idx)"
    by (simp_all add: saveable_def trained_def)
  from assms(1) r show 1: "unat (N (param idx)) \<le> length (rndArray idx ! i)"
    by (simp add: saveable_def list_all_length)
  from assms(1) t show "sorted_map (tables idx ! i)" "length (tables idx ! i) < 2 ^ 32"
    "list_all (\<lambda>(code, ids). length ids < 2 ^ 32) (tables idx ! i)"
    by (simp_all add: saveable_def list_all_length)
  from assms(1) p show 2: "length (pcsAll idx ! i) = unat (N (param idx))"
    "list_all (\<lambda>row. length row = unat (D (param idx))) (pcsAll idx ! i)"
    by (simp_all add: saveable_def trained_def list_all_length)
  from assms(1) om show 3: "length (omegasAll idx ! i) = unat (N (param idx))"
    "list_all (\<lambda>row. length row = unat (N (param idx))) (omegasAll idx ! i)"
    by (simp_all add: saveable_def trained_def list_all_length)
  from 1 2 3 t r p om show "save_in_range idx i"
    by (simp add: save_in_range_def list_all_length)
qed

lemma load_table_written:
  assumes "saveable idx" and "i < unat (L (param idx))"
  shows "load_table (unat (N (param idx))) (unat (D (param idx))) [] (save_table idx i @ file)
       = Inr (written_table idx i, file)"
proof -
  let ?n = "unat (N (param idx))" and ?d = "unat (D (param idx))"
  note st = saveable_table [OF assms]
  let ?rows = "zip (pcsAll idx ! i) (omegasAll idx ! i)"
  have rnd: "read_unsigneds ?n (map U (take ?n (rndArray idx ! i)) @ rest)
      = Inr (take ?n (rndArray idx ! i), rest)" for rest
    using read_unsigneds_written [of "take ?n (rndArray idx ! i)" rest] st(1) by simp
  have cnt: "unat (of_nat (length (tables idx ! i)) :: u32) = length (tables idx ! i)"
    using st(3) by (simp add: unat_of_nat)
  have bks: "load_buckets (length (tables idx ! i)) [] (concat (map save_bucket (tables idx ! i)) @ rest)
      = Inr (tables idx ! i, rest)" for rest
    using load_buckets_written [of "[]" "tables idx ! i" rest] st(2) st(4) by simp
  have lrows: "length ?rows = ?n" using st(5,6) by simp
  have "list_all (\<lambda>(p, om). length p = ?d \<and> length om = ?n) ?rows"
    using st(5-8) by (auto simp: list_all_length)
  from load_rows_written [OF this, of "file"]
  have rows: "load_rows ?n ?d ?n (concat (map (\<lambda>(p, om). map F p @ map F om) ?rows) @ file)
      = Inr (?rows, file)"
    using st(5,6) by simp
  have fs: "map fst ?rows = pcsAll idx ! i" "map snd ?rows = omegasAll idx ! i"
    using st(5,6) by simp_all
  show ?thesis
    unfolding save_table_def load_table_def rows_as_zip [OF st(5) st(6) st(7) st(8)]
    by (simp add: rnd cnt bks rows fs written_table_def)
qed

lemma load_tables_written:
  assumes "saveable idx" and "\<forall>i\<in>set js. i < unat (L (param idx))"
  shows "load_tables (unat (N (param idx))) (unat (D (param idx))) (replicate (length js) [])
           (concat (map (save_table idx) js) @ file)
       = Inr (map (written_table idx) js, file)"
  using assms(2)
proof (induction js)
  case Nil
  then show ?case by simp
next
  case (Cons i js)
  then have i: "i < unat (L (param idx))" by simp
  from Cons have ih: "load_tables (unat (N (param idx))) (unat (D (param idx))) (replicate (length js) [])
           (concat (map (save_table idx) js) @ file)
       = Inr (map (written_table idx) js, file)" by simp
  show ?case
    using load_table_written [OF assms(1) i, of "concat (map (save_table idx) js) @ file"] ih
    by simp
qed

lemma save_saveable:
  assumes "saveable idx"
  shows "save idx =
     Inr ([U (M (param idx)), U (L (param idx)), U (D (param idx)), U (N (param idx)),
           U (S (param idx))] @ concat (map (save_table idx) [0..<unat (L (param idx))]))"
proof -
  have "list_all (save_in_range idx) [0..<unat (L (param idx))]"
    using saveable_table(9) [OF assms] by (simp add: list_all_iff)
  then show ?thesis by (simp add: save_def)
qed

lemma load_save:
  assumes "saveable idx" and "list_all (\<lambda>m. m = []) (tables idx0)"
  shows "\<exists>file. save idx = Inr file \<and> load idx0 file = Inr (reloaded idx0 idx)"
proof -
  let ?l = "unat (L (param idx))"
  let ?body = "concat (map (save_table idx) [0..<?l])"
  let ?hd = "[M (param idx), L (param idx), D (param idx), N (param idx), S (param idx)]"
  have hd: "read_unsigneds 5 (map U ?hd @ ?body) = Inr (?hd, ?body)"
    by (simp add: eval_nat_numeral)
  have rs: "resize ?l [] (tables idx0) = replicate (length [0..<?l]) []"
    using resize_all_default [OF assms(2)] by simp
  have ts: "load_tables (unat (N (param idx))) (unat (D (param idx))) (resize ?l [] (tables idx0)) ?body
      = Inr (map (written_table idx) [0..<?l], [])"
    unfolding rs using load_tables_written [OF assms(1), of "[0..<?l]" "[]"] by simp
  have lens: "?l \<le> length (tables idx)" "?l \<le> length (rndArray idx)"
    "?l = length (pcsAll idx)" "?l = length (omegasAll idx)"
    using assms(1) by (simp_all add: saveable_def trained_def)
  have m1: "map (lt_buckets \<circ> written_table idx) [0..<?l] = take ?l (tables idx)"
    using nths_as_take [OF lens(1)] by (simp add: written_table_def comp_def)
  have m2: "map (lt_rnd \<circ> written_table idx) [0..<?l]
      = map (take (unat (N (param idx)))) (take ?l (rndArray idx))"
    using lens(2) by (intro nth_equalityI) (simp_all add: written_table_def)
  have m3: "map (lt_pcs \<circ> written_table idx) [0..<?l] = pcsAll idx"
    using nths_as_take [of ?l "pcsAll idx"] lens(3) by (simp add: written_table_def comp_def)
  have m4: "map (lt_omegas \<circ> written_table idx) [0..<?l] = omegasAll idx"
    using nths_as_take [of ?l "omegasAll idx"] lens(4) by (simp add: written_table_def comp_def)
  have "load idx0 (map U ?hd @ ?body) = Inr (reloaded idx0 idx)"
    unfolding load_def hd by (simp add: ts m1 m2 m3 m4 reloaded_def Let_def)
  then show ?thesis using save_saveable [OF assms(1)] by simp
qed


lemma reloaded_fields:
  "M (param (reloaded idx0 idx)) = M (param idx)" "L (param (reloaded idx0 idx)) = L (param idx)"
  "D (param (reloaded idx0 idx)) = D (param idx)" "N (param (reloaded idx0 idx)) = N (param idx)"
  "S (param (reloaded idx0 idx)) = S (param idx)"
  "tables (reloaded idx0 idx) = take (unat (L (param idx))) (tables idx)"
  "pcsAll (reloaded idx0 idx) = pcsAll idx" "omegasAll (reloaded idx0 idx) = omegasAll idx"
  "rndArray (reloaded idx0 idx)
     = map (take (unat (N (param idx)))) (take (unat (L (param idx))) (rndArray idx))"
  by (simp_all add: reloaded_def)

lemma save_reloaded:
  assumes "saveable idx"
  shows "save (reloaded idx0 idx) = save idx"
proof -
  let ?l = "unat (L (param idx))"
  have lens: "?l \<le> length (tables idx)" "?l \<le> length (rndArray idx)"
    using assms by (simp_all add: saveable_def)
  have r: "save_in_range (reloaded idx0 idx) i" if "i < ?l" for i
    using saveable_table [OF assms that] that lens
    by (simp add: save_in_range_def reloaded_fields list_all_length)
  have t: "save_table (reloaded idx0 idx) i = save_table idx i" if "i < ?l" for i
    using that lens by (simp add: save_table_def reloaded_fields)
  have a: "list_all (save_in_range (reloaded idx0 idx)) [0..<?l]"
    using r by (simp add: list_all_iff)
  have m: "map (save_table (reloaded idx0 idx)) [0..<?l] = map (save_table idx) [0..<?l]"
    using t by simp
  have "save (reloaded idx0 idx) =
     Inr ([U (M (param idx)), U (L (param idx)), U (D (param idx)), U (N (param idx)),
           U (S (param idx))] @ concat (map (save_table idx) [0..<?l]))"
    by (simp add: save_def reloaded_fields a m)
  then show ?thesis using save_saveable [OF assms] by simp
qed

lemma upt_2: "[0..<2] = [0, 1]"
  by (simp add: upt_rec)

lemma save_rehashed2:
  "save rehashed2 =
     Inr [U 521, U 1, U 2, U 2, U 2,
          U 0, U 0, U 2, U 0, U 1, U 1, U 3, U 1, U 0,
          F 1, F 0, F 1, F 0, F 0, F 1, F 0, F 1]"
  by (simp add: save_def save_in_range_def save_table_def save_bucket_def rehashed2_def
      identity2_def upt_2)

lemma save_hashed2:
  "save hashed2 =
     Inr [U 521, U 1, U 2, U 2, U 2,
          U 0, U 0, U 2, U 0, U 1, U 1, U 3, U 1, U 0,
          F 1, F 0, F 1, F 0, F 0, F 1, F 0, F 1]"
  by (simp add: save_def save_in_range_def save_table_def save_bucket_def hashed2_def
      identity2_def upt_2)

lemma saveable_hashed2: "saveable hashed2"
  by (simp add: saveable_def trained_def hashed2_def identity2_def sorted_map_def)

lemma saveable_rehashed2: "saveable rehashed2"
  by (simp add: saveable_def trained_def rehashed2_def identity2_def sorted_map_def)

lemma empty_index_fresh: "list_all (\<lambda>m. m = []) (tables empty_index)"
  by (simp add: empty_index_def)

text \<open>
  C3. An index with trained matrices whose table count is \<open>L\<close>, whose maps and buckets
  have sizes that fit an \<open>unsigned\<close> and whose rows of \<open>rndArray\<close> have at least \<open>N\<close>
  entries is saved without a subscript out of range. Loading the file into an object that
  holds no bucket gives an index with the same \<open>M\<close>, \<open>L\<close>, \<open>D\<close>, \<open>N\<close>, \<open>S\<close>, the same
  tables and the same projection and rotation matrices, and saving that index writes the
  same file.
\<close>

theorem C3_save_load_round_trip:
  assumes "saveable idx" and "length (tables idx) = unat (L (param idx))"
    and "list_all (\<lambda>m. m = []) (tables idx0)"
  shows "\<exists>file idx'. save idx = Inr file \<and> load idx0 file = Inr idx' \<and>
     M (param idx') = M (param idx) \<and> L (param idx') = L (param idx) \<and>
     D (param idx') = D (param idx) \<and> N (param idx') = N (param idx) \<and>
     S (param idx') = S (param idx) \<and>
     tables idx' = tables idx \<and> pcsAll idx' = pcsAll idx \<and> omegasAll idx' = omegasAll idx \<and>
     save idx' = Inr file"
proof -
  from load_save [OF assms(1,3)] obtain saved where
    f: "save idx = Inr saved" "load idx0 saved = Inr (reloaded idx0 idx)" by auto
  have "save (reloaded idx0 idx) = Inr saved" using save_reloaded [OF assms(1)] f(1) by simp
  with f assms(2) show ?thesis
    by (intro exI [of _ saved] exI [of _ "reloaded idx0 idx"]) (simp add: reloaded_fields)
qed


theorem C3_save_load_round_trip_witness:
  "saveable hashed2 \<and> length (tables hashed2) = unat (L (param hashed2)) \<and>
   (\<exists>saved idx'. save hashed2 = Inr saved \<and> load empty_index saved = Inr idx' \<and>
      M (param idx') = 521 \<and> L (param idx') = 1 \<and> D (param idx') = 2 \<and>
      N (param idx') = 2 \<and> S (param idx') = 2 \<and>
      tables idx' = [[(0, [1]), (3, [0])]] \<and>
      pcsAll idx' = [[[1, 0], [0, 1]]] \<and> omegasAll idx' = [[[1, 0], [0, 1]]] \<and>
      save idx' = Inr saved)"
proof -
  have l: "length (tables hashed2) = unat (L (param hashed2))"
    by (simp add: hashed2_def identity2_def)
  from C3_save_load_round_trip [OF saveable_hashed2 l empty_index_fresh] saveable_hashed2 l
  show ?thesis by (simp add: hashed2_def identity2_def)
qed

text \<open>\<open>save\<close> reads the tables below \<open>L\<close> only.\<close>

lemma save_ignores_tables_beyond_L:
  assumes "unat (L (param idx)) \<le> length (tables idx)"
  shows "save (idx\<lparr>tables := take (unat (L (param idx))) (tables idx) @ extra\<rparr>) = save idx"
proof -
  let ?l = "unat (L (param idx))"
  let ?idx = "idx\<lparr>tables := take ?l (tables idx) @ extra\<rparr>"
  have nth: "tables ?idx ! i = tables idx ! i" if "i < ?l" for i
    using that assms by (simp add: nth_append)
  have r: "save_in_range ?idx i = save_in_range idx i" if "i < ?l" for i
    using that assms by (simp add: save_in_range_def)
  have t: "save_table ?idx i = save_table idx i" if "i < ?l" for i
    using nth [OF that] by (simp add: save_table_def)
  have a: "list_all (save_in_range ?idx) [0..<?l] = list_all (save_in_range idx) [0..<?l]"
    using r by (simp add: list_all_iff)
  have m: "map (save_table ?idx) [0..<?l] = map (save_table idx) [0..<?l]"
    using t by simp
  have "save ?idx =
     (if list_all (save_in_range ?idx) [0..<?l]
      then Inr ([U (M (param idx)), U (L (param idx)), U (D (param idx)), U (N (param idx)),
                 U (S (param idx))] @ concat (map (save_table ?idx) [0..<?l]))
      else Inl OutOfBounds)"
    by (simp add: save_def)
  then show ?thesis unfolding a m by (simp add: save_def)
qed

text \<open>
  C6. The claim is that the file holds the buckets of every table that exists when \<open>save\<close>
  runs. \<open>save\<close> loops over \<open>i\<close> below \<open>param.L\<close>. After \<open>hash\<close> and then \<open>rehash\<close> to two
  tables the index has \<open>L = 1\<close> and two populated tables, and the file \<open>save\<close> writes is
  the one it writes before \<open>rehash\<close>: nothing of table 1 is in it.
\<close>

theorem C6_save_omits_tables_beyond_L:
  "hash identity2 [[1, 1], [-1, -1]] = Inr hashed2 \<and>
   rehash step_pro_init step_pro_pop hashed2 [[1, 1], [-1, -1]] 2 = Inr rehashed2 \<and>
   tables rehashed2 = [[(0, [1]), (3, [0])], [(1, [1]), (4, [0])]] \<and>
   save rehashed2 =
     Inr [U 521, U 1, U 2, U 2, U 2,
          U 0, U 0, U 2, U 0, U 1, U 1, U 3, U 1, U 0,
          F 1, F 0, F 1, F 0, F 0, F 1, F 0, F 1] \<and>
   save rehashed2 = save hashed2"
  by (simp add: hashed2_ok rehashed2_ok params_rehashed2 save_rehashed2 save_hashed2)

text \<open>
  C6, as the source has it. For an index with trained matrices that holds at least \<open>L\<close>
  tables, \<open>save\<close> writes the five parameters followed by the blocks of the tables 0 to
  \<open>L - 1\<close> and nothing else, and it writes the same file whatever tables stand at the
  indexes \<open>L\<close> and above: no table with index \<open>L\<close> or more is written. \<open>load\<close>, called
  on an object whose tables hold no buckets, reads back from the file the projection and
  rotation matrices of all \<open>L\<close> tables and the buckets of the tables 0 to \<open>L - 1\<close>.
\<close>

theorem C6_save_writes_first_L_tables:
  assumes "saveable idx" and "list_all (\<lambda>m. m = []) (tables idx0)"
  shows "\<exists>saved idx'. save idx = Inr saved \<and>
     saved = [U (M (param idx)), U (L (param idx)), U (D (param idx)), U (N (param idx)),
              U (S (param idx))] @
             concat (map (save_table idx) [0..<unat (L (param idx))]) \<and>
     (\<forall>extra. save (idx\<lparr>tables := take (unat (L (param idx))) (tables idx) @ extra\<rparr>)
                = Inr saved) \<and>
     load idx0 saved = Inr idx' \<and>
     pcsAll idx' = pcsAll idx \<and> omegasAll idx' = omegasAll idx \<and>
     tables idx' = take (unat (L (param idx))) (tables idx)"
proof -
  from load_save [OF assms] obtain saved where
    f: "save idx = Inr saved" "load idx0 saved = Inr (reloaded idx0 idx)" by auto
  have l: "unat (L (param idx)) \<le> length (tables idx)"
    using assms(1) by (simp add: saveable_def)
  have e: "save (idx\<lparr>tables := take (unat (L (param idx))) (tables idx) @ extra\<rparr>) = Inr saved"
    for extra
    using save_ignores_tables_beyond_L [OF l] f(1) by simp
  have s: "saved = [U (M (param idx)), U (L (param idx)), U (D (param idx)), U (N (param idx)),
              U (S (param idx))] @
             concat (map (save_table idx) [0..<unat (L (param idx))])"
    using save_saveable [OF assms(1)] f(1) by simp
  from f e s show ?thesis
    by (intro exI [of _ saved] exI [of _ "reloaded idx0 idx"]) (simp add: reloaded_fields)
qed

theorem C6_save_writes_first_L_tables_witness:
  "saveable rehashed2 \<and>
   (\<exists>saved idx'. save rehashed2 = Inr saved \<and>
      saved = [U 521, U 1, U 2, U 2, U 2] @ concat (map (save_table rehashed2) [0..<1]) \<and>
      (\<forall>extra. save (rehashed2\<lparr>tables := [[(0, [1]), (3, [0])]] @ extra\<rparr>) = Inr saved) \<and>
      load empty_index saved = Inr idx' \<and>
      pcsAll idx' = pcsAll rehashed2 \<and> omegasAll idx' = omegasAll rehashed2 \<and>
      tables idx' = [[(0, [1]), (3, [0])]])"
proof -
  have p: "M (param rehashed2) = 521" "D (param rehashed2) = 2" "S (param rehashed2) = 2"
    by (simp_all add: rehashed2_def identity2_def)
  from C6_save_writes_first_L_tables [OF saveable_rehashed2 empty_index_fresh]
    saveable_rehashed2
  show ?thesis by (simp add: params_rehashed2 p)
qed

section \<open>The Hamming distance loop\<close>

lemma hamming_pop_count: "hamming a b = pop_count (a XOR b)"
proof -
  have "bit (a XOR b) = (\<lambda>i. bit a i \<noteq> bit b i)"
    by (simp add: fun_eq_iff bit_xor_iff)
  then show ?thesis by (simp add: hamming_def pop_count_def)
qed

lemma upt_32_Cons: "[0..<32] = 0 # map Suc [0..<31]"
  by (simp add: map_Suc_upt upt_conv_Cons)

lemma upt_32_snoc: "[0..<32] = [0..<31] @ [31]"
proof -
  have "[0..<Suc 31] = [0..<31] @ [31]" by (rule upt_Suc_append) simp
  then show ?thesis by simp
qed

lemma pop_count_rec: "pop_count x = (if odd x then 1 else 0) + pop_count (x div 2)"
proof -
  have "bit (x div 2) 31 = False"
    by (simp add: bit_iff_odd_drop_bit flip: drop_bit_Suc)
  have a: "pop_count x = (if odd x then 1 else 0) + length (filter (\<lambda>i. bit x (Suc i)) [0..<31])"
    unfolding pop_count_def upt_32_Cons by (simp add: bit_0 filter_map comp_def)
  have b: "pop_count (x div 2) = length (filter (\<lambda>i. bit x (Suc i)) [0..<31])"
    unfolding pop_count_def upt_32_snoc
    using \<open>bit (x div 2) 31 = False\<close> by (simp add: bit_Suc)
  show ?thesis using a b by simp
qed


lemma even_unat_u32: "even (unat (x::u32)) \<longleftrightarrow> even x"
proof -
  have "bit (unat x) 0 = bit x 0" by (simp add: bit_unsigned_iff)
  then show ?thesis by (simp add: bit_0)
qed

lemma word_pred_div2_odd: "odd (x::u32) \<Longrightarrow> (x - 1) div 2 = x div 2"
proof -
  assume o: "odd x"
  then have nz: "x \<noteq> 0" by auto
  have ou: "odd (unat x)" using o by (simp add: even_unat_u32)
  have "unat ((x - 1) div 2) = (unat x - 1) div 2"
    using nz by (simp add: unat_div unat_minus_one)
  also have "\<dots> = unat x div 2" using ou by presburger
  also have "\<dots> = unat (x div 2)" by (simp add: unat_div)
  finally show ?thesis by (simp add: word_unat_eq_iff)
qed

lemma word_pred_div2_even: "even (x::u32) \<Longrightarrow> x \<noteq> 0 \<Longrightarrow> (x - 1) div 2 = x div 2 - 1"
proof -
  assume e: "even x" and nz: "x \<noteq> 0"
  have eu: "even (unat x)" using e by (simp add: even_unat_u32)
  have pos: "0 < unat x" using nz by (simp add: unat_gt_0)
  have d: "x div 2 \<noteq> 0"
  proof
    assume "x div 2 = 0"
    then have "unat x div 2 = 0" using unat_div [of x 2] by simp
    with eu pos show False by presburger
  qed
  have "unat ((x - 1) div 2) = (unat x - 1) div 2"
    using nz by (simp add: unat_div unat_minus_one)
  also have "\<dots> = unat x div 2 - 1" using eu pos by presburger
  also have "\<dots> = unat (x div 2 - 1)" using d by (simp add: unat_div unat_minus_one)
  finally show ?thesis by (simp add: word_unat_eq_iff)
qed

lemma pop_count_clear_lowest:
  "x \<noteq> 0 \<Longrightarrow> pop_count (x AND (x - 1)) + 1 = pop_count x"
proof (induction "unat x" arbitrary: x rule: less_induct)
  case less
  let ?y = "x AND (x - 1)"
  have ey: "even ?y" by (simp add: even_and_iff)
  have dy: "?y div 2 = (x div 2) AND ((x - 1) div 2)"
    using drop_bit_and [of 1 x "x - 1"] by (simp add: drop_bit_eq_div)
  have py: "pop_count ?y = pop_count (?y div 2)"
    using pop_count_rec [of ?y] ey by simp
  show ?case
  proof (cases "odd x")
    case True
    then have "?y div 2 = x div 2" using dy by (simp add: word_pred_div2_odd)
    with py pop_count_rec [of x] True show ?thesis by simp
  next
    case False
    then have e: "even x" by simp
    have d: "x div 2 \<noteq> 0"
    proof
      assume "x div 2 = 0"
      then have "unat x div 2 = 0" using unat_div [of x 2] by simp
      moreover have "even (unat x)" using e by (simp add: even_unat_u32)
      moreover have "0 < unat x" using less.prems by (simp add: unat_gt_0)
      ultimately show False by presburger
    qed
    have lt: "unat (x div 2) < unat x"
      using less.prems by (simp add: unat_div unat_gt_0)
    have "?y div 2 = (x div 2) AND (x div 2 - 1)"
      using dy e less.prems by (simp add: word_pred_div2_even)
    with less.hyps [OF lt d] py pop_count_rec [of x] e show ?thesis by simp
  qed
qed

lemma hamDist_loop_pop_count: "hamDist_loop x acc = acc + pop_count x"
proof (induction "pop_count x" arbitrary: x acc)
  case 0
  show ?case
  proof (cases "x = 0")
    case True
    then show ?thesis by (simp add: hamDist_loop.simps pop_count_def)
  next
    case False
    from pop_count_clear_lowest [OF this] 0 show ?thesis by simp
  qed
next
  case (Suc n)
  then have nz: "x \<noteq> 0" by (auto simp: pop_count_def)
  from pop_count_clear_lowest [OF nz] Suc.hyps(2) have "n = pop_count (x AND (x - 1))" by simp
  from Suc.hyps(1) [OF this, of "acc + 1"] pop_count_clear_lowest [OF nz] nz
  show ?case by (subst hamDist_loop.simps) simp
qed

lemma hamDist_loop_hamming: "hamDist_loop (a XOR b) 0 = hamming a b"
  by (simp add: hamDist_loop_pop_count hamming_pop_count)


section \<open>\<open>queryRanking\<close>\<close>

lemma bit_above_bound: "unat (a::u32) < 2 ^ n \<Longrightarrow> n \<le> i \<Longrightarrow> \<not> bit a i"
proof -
  assume a: "unat a < 2 ^ n" and i: "n \<le> i"
  have "(2::nat) ^ n \<le> 2 ^ i" using i by simp
  with a have "unat a < 2 ^ i" by (rule less_le_trans)
  then have "unat a div 2 ^ i = 0" by (rule div_less)
  then have "\<not> bit (unat a) i" by (simp add: bit_iff_odd)
  then show ?thesis by (simp add: bit_unsigned_iff)
qed

lemma hamming_le:
  assumes "unat a < 2 ^ n" and "unat b < 2 ^ n"
  shows "hamming a b \<le> n"
proof -
  let ?P = "\<lambda>i. bit a i \<noteq> bit b i"
  have "set (filter ?P [0..<32]) \<subseteq> {0..<n}"
    using bit_above_bound [OF assms(1)] bit_above_bound [OF assms(2)]
    by (auto simp: not_le [symmetric])
  then have "card (set (filter ?P [0..<32])) \<le> card {0..<n}"
    by (intro card_mono) simp_all
  moreover have "card (set (filter ?P [0..<32])) = length (filter ?P [0..<32])"
    by (intro distinct_card) simp
  ultimately show ?thesis unfolding hamming_def by simp
qed

lemma fill_dstToBks_rows:
  assumes "\<forall>code\<in>fst ` set m. hamming h code < length dst"
  shows "\<exists>dst'. fill_dstToBks h m dst = Inr dst' \<and> length dst' = length dst \<and>
     (\<forall>d<length dst. dst' ! d = dst ! d @ filter (\<lambda>code. hamming h code = d) (map fst m))"
  using assms
proof (induction m arbitrary: dst)
  case Nil
  then show ?case by simp
next
  case (Cons b m)
  obtain code ids where b: "b = (code, ids)" by (cases b)
  let ?d = "hamming h code"
  let ?dst = "dst[?d := dst ! ?d @ [code]]"
  from Cons.prems have d: "?d < length dst" by (simp add: b)
  from Cons.prems have "\<forall>code\<in>fst ` set m. hamming h code < length ?dst" by simp
  from Cons.IH [OF this] obtain dst' where
    r: "fill_dstToBks h m ?dst = Inr dst'" "length dst' = length dst"
      "\<forall>d<length dst. dst' ! d = ?dst ! d @ filter (\<lambda>code. hamming h code = d) (map fst m)"
    by auto
  have "dst' ! e = dst ! e @ filter (\<lambda>code. hamming h code = e) (map fst (b # m))"
    if "e < length dst" for e
    using r(3) that d by (cases "e = ?d") (auto simp: b)
  with r d show ?case by (simp add: b hamDist_loop_hamming)
qed

lemma fill_dstToBks_empty:
  assumes "\<forall>code\<in>fst ` set m. hamming h code < n"
  shows "\<exists>dst. fill_dstToBks h m (replicate n []) = Inr dst \<and> length dst = n \<and>
     concat dst = by_distance h (map fst m) n"
proof -
  from fill_dstToBks_rows [of m h "replicate n []"] assms obtain dst where
    r: "fill_dstToBks h m (replicate n []) = Inr dst" "length dst = n"
      "\<forall>d<n. dst ! d = filter (\<lambda>code. hamming h code = d) (map fst m)"
    by auto
  have "dst = map (\<lambda>d. filter (\<lambda>code. hamming h code = d) (map fst m)) [0..<n]"
    using r(2,3) by (intro nth_equalityI) auto
  with r show ?thesis by (simp add: by_distance_def)
qed

lemma mset_by_distance:
  "mset (by_distance h codes n) = filter_mset (\<lambda>code. hamming h code < n) (mset codes)"
proof (induction n)
  case 0
  then show ?case by (simp add: by_distance_def)
next
  case (Suc n)
  have "mset (by_distance h codes (Suc n))
      = mset (by_distance h codes n) + filter_mset (\<lambda>code. hamming h code = n) (mset codes)"
    by (simp add: by_distance_def)
  also have "\<dots> = filter_mset (\<lambda>code. hamming h code < Suc n) (mset codes)"
    unfolding Suc.IH by (rule multiset_eqI) (auto simp: less_Suc_eq)
  finally show ?case .
qed

lemma mset_by_distance_all:
  "\<forall>code\<in>set codes. hamming h code < n \<Longrightarrow> mset (by_distance h codes n) = mset codes"
  by (simp add: mset_by_distance filter_mset_eq_conv)

lemma by_distance_below: "code \<in> set (by_distance h codes n) \<Longrightarrow> hamming h code < n"
  by (auto simp: by_distance_def)

lemma sorted_by_distance: "sorted (map (hamming h) (by_distance h codes n))"
proof (induction n)
  case 0
  then show ?case by (simp add: by_distance_def)
next
  case (Suc n)
  have "by_distance h codes (Suc n)
      = by_distance h codes n @ filter (\<lambda>code. hamming h code = n) codes"
    by (simp add: by_distance_def)
  moreover have "sorted (map (hamming h) (filter (\<lambda>code. hamming h code = n) codes))"
    by (induction codes) auto
  ultimately show ?case
    using Suc by_distance_below [of _ h codes n]
    by (auto simp: sorted_append dest!: by_distance_below less_imp_le)
qed


lemma concat_take_Suc:
  "r < length dst \<Longrightarrow> length (concat (take (Suc r) dst)) = length (concat (take r dst)) + length (dst ! r)"
  by (simp add: take_Suc_conv_app_nth)

lemma concat_nth_row:
  assumes "r < length dst" and "c < length (dst ! r)"
  shows "concat dst ! (length (concat (take r dst)) + c) = dst ! r ! c"
proof -
  have "concat dst = concat (take r dst) @ dst ! r @ concat (drop (Suc r) dst)"
    using id_take_nth_drop [OF assms(1)] by (metis concat.simps(2) concat_append)
  then show ?thesis using assms(2) by (simp add: nth_append)
qed

lemma concat_take_le: "length (concat (take r dst)) \<le> length (concat dst)"
proof -
  have "concat dst = concat (take r dst) @ concat (drop r dst)"
    by (metis append_take_drop_id concat_append)
  then show ?thesis by simp
qed

lemma advance_position:
  assumes "r < length dst" and "c \<le> length (dst ! r)"
    and "length (concat (take r dst)) + c < length (concat dst)"
  shows "\<exists>r' c'. advance dst r c = Inr (r', c') \<and> r' < length dst \<and> c' < length (dst ! r') \<and>
     length (concat (take r' dst)) + c' = length (concat (take r dst)) + c"
  using assms
proof (induction "length dst - r" arbitrary: r c)
  case 0
  then show ?case by simp
next
  case (Suc n)
  show ?case
  proof (cases "c = length (dst ! r)")
    case False
    with Suc.prems show ?thesis by (subst advance.simps) auto
  next
    case True
    have p: "length (concat (take (Suc r) dst)) = length (concat (take r dst)) + c"
      using True Suc.prems(1) by (simp add: concat_take_Suc)
    have "Suc r \<noteq> length dst"
    proof
      assume "Suc r = length dst"
      then have "take (Suc r) dst = dst" by simp
      with p Suc.prems(3) show False by simp
    qed
    with Suc.prems(1) have r1: "Suc r < length dst" by simp
    have n: "n = length dst - Suc r" using Suc.hyps(2) by simp
    have 3: "length (concat (take (Suc r) dst)) + 0 < length (concat dst)"
      using p Suc.prems(3) by simp
    from Suc.hyps(1) [OF n r1 _ 3] obtain r' c' where
      "advance dst (Suc r) 0 = Inr (r', c')" "r' < length dst" "c' < length (dst ! r')"
      "length (concat (take r' dst)) + c' = length (concat (take (Suc r) dst)) + 0"
      by auto
    with True Suc.prems(1) p show ?thesis by (subst advance.simps) simp
  qed
qed

lemma ranking_probe_loop_takes:
  assumes "L (param idx) = 1" and "k < length (tables idx)"
    and "r < length dst" and "c \<le> length (dst ! r)"
    and "n = min (length (tables idx ! k)) (nat maxNumBuckets) - bId"
    and "length (concat (take r dst)) + c + n \<le> length (concat dst)"
  shows "ranking_probe_loop idx k dst maxNumBuckets bId r c sc =
     Inr \<lparr> probed = probed sc @ take n (drop (length (concat (take r dst)) + c) (concat dst)),
           scanned = scanned sc @
             concat (map (bucket_of (tables idx ! k))
               (take n (drop (length (concat (take r dst)) + c) (concat dst)))) \<rparr>"
  using assms(3-6)
proof (induction n arbitrary: bId r c sc)
  case 0
  then have "(bId < length (tables idx ! k) \<and> int bId < maxNumBuckets) = False" by auto
  then show ?case by (subst ranking_probe_loop.simps) (simp only: if_False, simp)
next
  case (Suc n)
  let ?p = "length (concat (take r dst)) + c"
  from Suc.prems(3) have cond: "bId < length (tables idx ! k) \<and> int bId < maxNumBuckets" by auto
  have lt: "?p < length (concat dst)" using Suc.prems(4) by simp
  from advance_position [OF Suc.prems(1,2) lt] obtain r' c' where
    a: "advance dst r c = Inr (r', c')" "r' < length dst" "c' < length (dst ! r')"
      "length (concat (take r' dst)) + c' = ?p"
    by auto
  let ?b = "dst ! r' ! c'"
  have b: "concat dst ! ?p = ?b" using concat_nth_row [OF a(2,3)] a(4) by simp
  let ?sc = "\<lparr> probed = probed sc @ [?b],
               scanned = scanned sc @ bucket_of (tables idx ! k) ?b \<rparr>"
  have pr: "probe idx k ?b sc = Inr ?sc" using assms(1,2) by (simp add: probe_def)
  have 1: "c' + 1 \<le> length (dst ! r')" using a(3) by simp
  have 2: "n = min (length (tables idx ! k)) (nat maxNumBuckets) - (bId + 1)"
    using Suc.prems(3) by simp
  have 3: "length (concat (take r' dst)) + (c' + 1) + n \<le> length (concat dst)"
    using Suc.prems(4) a(4) by simp
  have p1: "length (concat (take r' dst)) + (c' + 1) = Suc ?p" using a(4) by simp
  have tk: "take (Suc n) (drop ?p (concat dst)) = ?b # take n (drop (Suc ?p) (concat dst))"
    using lt b by (simp add: Cons_nth_drop_Suc [symmetric])
  have "ranking_probe_loop idx k dst maxNumBuckets bId r c sc
      = ranking_probe_loop idx k dst maxNumBuckets (bId + 1) r' (c' + 1) ?sc"
    using cond a(1,3) pr by (subst ranking_probe_loop.simps) simp
  also note Suc.IH [OF a(2) 1 2 3, of ?sc]
  finally show ?case unfolding p1 tk by simp
qed


text \<open>
  C2. On an index with \<open>L = 1\<close>, trained matrices and stored codes below \<open>2 ^ N\<close>,
  \<open>queryRanking\<close> passes its assertions and probes
  \<open>min(maxNumBuckets, number of buckets of table 0)\<close> buckets (none for a budget below 1),
  each a bucket of the table and none twice; of two probed buckets the earlier one is not
  farther from the query code in Hamming distance; and the scanner receives the contents
  of the probed buckets in this order. \<open>N + 1\<close>, the number of rows of \<open>dstToBks\<close>, is
  taken not to wrap.
\<close>

theorem C2_queryRanking_order:
  assumes "trained idx" and "L (param idx) = 1" and "tables idx \<noteq> []"
    and "codes_bounded idx" and "unat (D (param idx)) \<le> length domin"
    and "unat (N (param idx)) < 2 ^ 32 - 1"
  shows "\<exists>sc hashVal. queryRanking idx domin maxNumBuckets = Inr sc \<and>
     getHashVal idx 0 domin = Inr hashVal \<and>
     length (probed sc) = min (nat maxNumBuckets) (length (tables idx ! 0)) \<and>
     (\<forall>i j. i < j \<and> j < length (probed sc) \<longrightarrow>
        hamming hashVal (probed sc ! i) \<le> hamming hashVal (probed sc ! j)) \<and>
     mset (probed sc) \<subseteq># mset (map fst (tables idx ! 0)) \<and>
     scanned sc = concat (map (bucket_of (tables idx ! 0)) (probed sc))"
proof -
  let ?n = "unat (N (param idx))"
  let ?m = "tables idx ! 0"
  let ?codes = "map fst ?m"
  let ?k = "min (length ?m) (nat maxNumBuckets)"
  have l1: "unat (L (param idx)) = 1" using assms(2) by simp
  from getHashVal_bounded [OF assms(1) _ assms(5), of 0] l1 obtain h where
    h: "getHashVal idx 0 domin = Inr h" "unat h < 2 ^ ?n" by auto
  have t0: "0 < length (tables idx)" using assms(3) by simp
  have n1: "unat (N (param idx) + 1) = Suc ?n"
    using assms(6) by (simp add: unat_word_ariths)
  have bounded: "unat code < 2 ^ ?n" if "code \<in> set ?codes" for code
  proof -
    from that obtain ids where "(code, ids) \<in> set ?m" by auto
    moreover have "?m \<in> set (tables idx)" using t0 by (rule nth_mem)
    ultimately show ?thesis
      using assms(4) unfolding codes_bounded_def list_all_iff by blast
  qed
  have ham: "\<forall>code\<in>set ?codes. hamming h code < Suc ?n"
    using hamming_le [OF h(2) bounded] by (auto simp: less_Suc_eq_le)
  then have "\<forall>code\<in>fst ` set ?m. hamming h code < Suc ?n" by simp
  from fill_dstToBks_empty [OF this] obtain dst where
    d: "fill_dstToBks h ?m (replicate (Suc ?n) []) = Inr dst" "length dst = Suc ?n"
      "concat dst = by_distance h ?codes (Suc ?n)" by auto
  let ?ranked = "by_distance h ?codes (Suc ?n)"
  have ms: "mset ?ranked = mset ?codes" using ham by (rule mset_by_distance_all)
  then have len: "length ?ranked = length ?m" by (metis size_mset length_map)
  have r0: "0 < length dst" using d(2) by simp
  have fits: "length (concat (take 0 dst)) + 0 + ?k \<le> length (concat dst)"
    using len d(3) by simp
  define probes where "probes = take ?k ?ranked"
  let ?sc = "\<lparr> probed = probes, scanned = concat (map (bucket_of ?m) probes) \<rparr>"
  have loop: "ranking_probe_loop idx 0 dst maxNumBuckets 0 0 0 reset_scanner = Inr ?sc"
    using ranking_probe_loop_takes [OF assms(2) t0 r0 _ _ fits, of maxNumBuckets 0 reset_scanner] d(3)
    by (simp add: reset_scanner_def probes_def)
  have q: "queryRanking idx domin maxNumBuckets = Inr ?sc"
    using assms(2) t0 h(1) d(1) loop
    by (simp add: queryRanking_def queryRanking_table_def n1)
  have sorted: "sorted (map (hamming h) probes)"
    using sorted_by_distance [of h ?codes "Suc ?n"]
    by (simp add: probes_def take_map [symmetric] sorted_wrt_take)
  have mono: "hamming h (probes ! i) \<le> hamming h (probes ! j)"
    if "i < j \<and> j < length probes" for i j
  proof -
    have "map (hamming h) probes ! i \<le> map (hamming h) probes ! j"
      using sorted that by (intro sorted_nth_mono) simp_all
    then show ?thesis using that by simp
  qed
  have "mset probes \<subseteq># mset probes + mset (drop ?k ?ranked)"
    by simp
  also have "\<dots> = mset ?ranked" by (simp add: probes_def flip: mset_append)
  finally have sub: "mset probes \<subseteq># mset ?codes" using ms by simp
  have lk: "length probes = min (nat maxNumBuckets) (length ?m)"
    using len by (simp add: probes_def min.commute)
  have "queryRanking idx domin maxNumBuckets = Inr ?sc \<and>
     getHashVal idx 0 domin = Inr h \<and>
     length (probed ?sc) = min (nat maxNumBuckets) (length (tables idx ! 0)) \<and>
     (\<forall>i j. i < j \<and> j < length (probed ?sc) \<longrightarrow>
        hamming h (probed ?sc ! i) \<le> hamming h (probed ?sc ! j)) \<and>
     mset (probed ?sc) \<subseteq># mset (map fst (tables idx ! 0)) \<and>
     scanned ?sc = concat (map (bucket_of (tables idx ! 0)) (probed ?sc))"
    using q h(1) mono sub lk by simp
  then show ?thesis by blast
qed


lemma trained_hashed2: "trained hashed2"
  by (simp add: trained_def hashed2_def identity2_def)

lemma codes_bounded_hashed2: "codes_bounded hashed2"
  by (simp add: codes_bounded_def hashed2_def identity2_def)

theorem C2_queryRanking_order_witness:
  "trained hashed2 \<and> codes_bounded hashed2 \<and>
   (\<exists>sc hashVal. queryRanking hashed2 [1, 1] 1 = Inr sc \<and>
     getHashVal hashed2 0 [1, 1] = Inr hashVal \<and>
     length (probed sc) = 1 \<and>
     (\<forall>i j. i < j \<and> j < length (probed sc) \<longrightarrow>
        hamming hashVal (probed sc ! i) \<le> hamming hashVal (probed sc ! j)) \<and>
     mset (probed sc) \<subseteq># mset (map fst (tables hashed2 ! 0)) \<and>
     scanned sc = concat (map (bucket_of (tables hashed2 ! 0)) (probed sc)))"
proof -
  have 1: "L (param hashed2) = 1" "tables hashed2 \<noteq> []"
    "unat (D (param hashed2)) \<le> length [1, 1 :: float]"
    "unat (N (param hashed2)) < 2 ^ 32 - 1"
    by (simp_all add: hashed2_def identity2_def)
  from C2_queryRanking_order [OF trained_hashed2 1(1,2) codes_bounded_hashed2 1(3,4), of 1]
    trained_hashed2 codes_bounded_hashed2
  show ?thesis by (simp add: params_hashed2)
qed

section \<open>\<open>queryRankingByLoss\<close>\<close>


lemma foldl_cond_filter:
  "foldl (\<lambda>dst i. if P i then float_add dst (f i) else dst) acc js
     = foldl float_add acc (map f (filter P js))"
  by (induction js arbitrary: acc) simp_all

lemma loss_loop_quantization_loss:
  assumes "length queryBits = n"
  shows "loss_loop float_add queryBits (map (\<lambda>i. bit code (n - Suc i)) [0..<n]) queryFloats
       = quantization_loss float_add n queryBits queryFloats code"
proof -
  have "filter (\<lambda>i. queryBits ! i \<noteq> map (\<lambda>i. bit code (n - Suc i)) [0..<n] ! i) [0..<n]
      = filter (\<lambda>i. queryBits ! i \<noteq> bit code (n - Suc i)) [0..<n]"
    by (rule filter_cong) simp_all
  with foldl_cond_filter [of "\<lambda>i. queryBits ! i \<noteq> map (\<lambda>i. bit code (n - Suc i)) [0..<n] ! i"
      float_add "\<lambda>i. \<bar>queryFloats ! i\<bar>" 0 "[0..<n]"]
  show ?thesis
    using assms by (simp add: loss_loop_def quantization_loss_def)
qed

text \<open>Where the addition does not round, the loss is the sum over the reals.\<close>

lemma foldl_plus_sum_list: "foldl (+) acc xs = acc + sum_list xs"
  for acc :: real
  by (induction xs arbitrary: acc) simp_all

lemma quantization_loss_exact:
  "quantization_loss (+) n queryBits queryFloats code =
     (\<Sum>i \<leftarrow> filter (\<lambda>i. queryBits ! i \<noteq> bit code (n - Suc i)) [0..<n]. \<bar>queryFloats ! i\<bar>)"
  by (simp add: quantization_loss_def foldl_plus_sum_list)

lemma loss_table_losses:
  assumes "unat (N (param idx)) < 2 ^ 31"
    and "list_all (\<lambda>(code, ids). unat code < 2 ^ unat (N (param idx))) m"
    and "length queryBits = unat (N (param idx))" and "length queryFloats = unat (N (param idx))"
  shows "loss_table float_add idx queryBits queryFloats m =
     Inr (map (\<lambda>(code, ids).
            (quantization_loss float_add (unat (N (param idx))) queryBits queryFloats code, code)) m)"
  using assms(2)
proof (induction m)
  case Nil
  then show ?case by simp
next
  case (Cons b m)
  obtain code ids where b: "b = (code, ids)" by (cases b)
  from Cons.prems have c: "unat code < 2 ^ unat (N (param idx))" by (simp add: b)
  from Cons have ih: "loss_table float_add idx queryBits queryFloats m =
     Inr (map (\<lambda>(code, ids).
            (quantization_loss float_add (unat (N (param idx))) queryBits queryFloats code, code)) m)"
    by simp
  show ?case
    using unsignedToBools_in_range [OF assms(1) c] ih assms(3,4)
      loss_loop_quantization_loss [OF assms(3), of float_add code queryFloats]
    by (simp add: b)
qed

lemma loss_probe_loop_takes:
  assumes "L (param idx) = 1" and "k < length (tables idx)"
  shows "loss_probe_loop idx k maxNumBuckets bId ps sc =
     Inr \<lparr> probed = probed sc @ map snd (take (nat maxNumBuckets - bId) ps),
           scanned = scanned sc @
             concat (map (bucket_of (tables idx ! k)) (map snd (take (nat maxNumBuckets - bId) ps))) \<rparr>"
proof (induction ps arbitrary: bId sc)
  case Nil
  then show ?case by simp
next
  case (Cons p ps)
  show ?case
  proof (cases "int bId < maxNumBuckets")
    case False
    then have "nat maxNumBuckets - bId = 0" by simp
    with False show ?thesis by simp
  next
    case True
    then obtain n where n: "nat maxNumBuckets - bId = Suc n" "nat maxNumBuckets - (bId + 1) = n"
      by (cases "nat maxNumBuckets - bId") auto
    show ?thesis
      using True assms Cons.IH [of "bId + 1"] n by (simp add: probe_def)
  qed
qed


text \<open>
  C7. On an index with \<open>L = 1\<close>, trained matrices and stored codes below \<open>2 ^ N\<close>,
  \<open>queryRankingByLoss\<close> runs without a subscript out of range. The loss it computes for
  a bucket is the sum of \<open>|queryFloats[i]|\<close> over the positions \<open>i\<close> at which the
  query's bit differs from the bucket's bit, a sum of floats taken in the order of the
  positions. It probes the first \<open>min(maxNumBuckets, number of buckets)\<close> codes of the
  sorted list (none for a budget below 1): of two probed buckets the earlier one has no
  greater loss, each is a bucket of the table and none is probed twice. This holds for
  every rounding of the float addition. \<open>std::sort\<close> returns a permutation sorted by
  loss; \<open>N\<close> is below \<open>2 ^ 31\<close>, as \<open>unsignedToBools\<close> needs.
\<close>

theorem C7_queryRankingByLoss_order:
  assumes "sorts_by_loss std_sort"
    and "trained idx" and "L (param idx) = 1" and "tables idx \<noteq> []"
    and "codes_bounded idx" and "unat (D (param idx)) \<le> length domin"
    and "unat (N (param idx)) < 2 ^ 31"
  shows "\<exists>sc queryBits queryFloats dstToBks.
     queryRankingByLoss float_add std_sort idx domin maxNumBuckets = Inr sc \<and>
     getHashBits idx 0 domin = Inr queryBits \<and> getHashFloats idx 0 domin = Inr queryFloats \<and>
     loss_table float_add idx queryBits queryFloats (tables idx ! 0) = Inr dstToBks \<and>
     dstToBks = map (\<lambda>(code, ids).
                  (quantization_loss float_add (unat (N (param idx))) queryBits queryFloats code, code))
                  (tables idx ! 0) \<and>
     probed sc = map snd (take (nat maxNumBuckets) (std_sort dstToBks)) \<and>
     length (probed sc) = min (nat maxNumBuckets) (length (tables idx ! 0)) \<and>
     (\<forall>i j. i < j \<and> j < length (probed sc) \<longrightarrow>
        quantization_loss float_add (unat (N (param idx))) queryBits queryFloats (probed sc ! i)
          \<le> quantization_loss float_add (unat (N (param idx))) queryBits queryFloats (probed sc ! j)) \<and>
     mset (probed sc) \<subseteq># mset (map fst (tables idx ! 0)) \<and>
     scanned sc = concat (map (bucket_of (tables idx ! 0)) (probed sc))"
proof -
  let ?n = "unat (N (param idx))"
  let ?m = "tables idx ! 0"
  have l1: "unat (L (param idx)) = 1" using assms(3) by simp
  have r: "hash_in_range idx 0 domin"
    using assms(2) _ assms(6) by (rule trained_hash_in_range) (simp add: l1)
  define qf where "qf = getHashFloats_loop (omegasAll idx ! 0) (domin_pc (pcsAll idx ! 0) domin)"
  define qb where "qb = quantization qf"
  have f: "getHashFloats idx 0 domin = Inr qf" using r by (simp add: getHashFloats_def qf_def)
  have b: "getHashBits idx 0 domin = Inr qb" using f by (simp add: getHashBits_def qb_def)
  have "length (pcsAll idx ! 0) = ?n"
    using assms(2) l1 by (auto simp: trained_def list_all_length)
  then have lf: "length qf = ?n"
    by (simp add: qf_def getHashFloats_loop_def domin_pc_def)
  then have lb: "length qb = ?n" by (simp add: qb_def quantization_def)
  define ql where "ql = quantization_loss float_add ?n qb qf"
  define losses where "losses = map (\<lambda>(code, ids). (ql code, code)) ?m"
  have t0: "0 < length (tables idx)" using assms(4) by simp
  have "?m \<in> set (tables idx)" using t0 by (rule nth_mem)
  then have bounded: "list_all (\<lambda>(code, ids). unat code < 2 ^ ?n) ?m"
    using assms(5) unfolding codes_bounded_def list_all_iff by blast
  have lt: "loss_table float_add idx qb qf ?m = Inr losses"
    using loss_table_losses [OF assms(7) bounded lb lf] by (simp add: losses_def ql_def)
  define ranked where "ranked = std_sort losses"
  have srt: "sorted (map fst ranked)" and ms: "mset ranked = mset losses"
    using assms(1) by (simp_all add: sorts_by_loss_def ranked_def)
  define probes where "probes = map snd (take (nat maxNumBuckets) ranked)"
  let ?sc = "\<lparr> probed = probes, scanned = concat (map (bucket_of ?m) probes) \<rparr>"
  have loop: "loss_probe_loop idx 0 maxNumBuckets 0 ranked reset_scanner = Inr ?sc"
    using loss_probe_loop_takes [OF assms(3) t0, of maxNumBuckets 0 ranked reset_scanner]
    by (simp add: reset_scanner_def probes_def)
  have q: "queryRankingByLoss float_add std_sort idx domin maxNumBuckets = Inr ?sc"
    using assms(3) t0 b f lt loop
    by (simp add: queryRankingByLoss_def queryRankingByLoss_table_def ranked_def)
  have "length ranked = length losses" using ms by (rule mset_eq_length)
  then have len: "length probes = min (nat maxNumBuckets) (length ?m)"
    by (simp add: probes_def losses_def min.commute)
  have fst_snd: "fst p = ql (snd p)" if "p \<in> set ranked" for p
  proof -
    from that have "p \<in> set losses" using ms by (metis set_mset_mset)
    then show ?thesis by (auto simp: losses_def)
  qed
  have "map fst (take (nat maxNumBuckets) ranked) = map ql probes"
    unfolding probes_def map_map
    by (rule map_cong) (auto dest!: in_set_takeD fst_snd)
  moreover have "sorted (map fst (take (nat maxNumBuckets) ranked))"
    using srt by (simp add: take_map [symmetric] sorted_wrt_take)
  ultimately have sorted: "sorted (map ql probes)" by simp
  have mono: "ql (probes ! i) \<le> ql (probes ! j)" if "i < j \<and> j < length probes" for i j
  proof -
    have "map ql probes ! i \<le> map ql probes ! j"
      using sorted that by (intro sorted_nth_mono) simp_all
    then show ?thesis using that by simp
  qed
  have "mset (map snd ranked) = mset (map snd losses)" using ms by (metis mset_map)
  also have "map snd losses = map fst ?m" by (simp add: losses_def split_def)
  finally have keys: "mset (map snd ranked) = mset (map fst ?m)" .
  have "mset probes \<subseteq># mset probes + mset (map snd (drop (nat maxNumBuckets) ranked))"
    by simp
  also have "\<dots> = mset (map snd ranked)"
    unfolding probes_def by (simp only: mset_append [symmetric] map_append [symmetric] append_take_drop_id)
  finally have sub: "mset probes \<subseteq># mset (map fst ?m)" using keys by simp
  have "queryRankingByLoss float_add std_sort idx domin maxNumBuckets = Inr ?sc \<and>
     getHashBits idx 0 domin = Inr qb \<and> getHashFloats idx 0 domin = Inr qf \<and>
     loss_table float_add idx qb qf ?m = Inr losses \<and>
     losses = map (\<lambda>(code, ids). (quantization_loss float_add ?n qb qf code, code)) ?m \<and>
     probed ?sc = map snd (take (nat maxNumBuckets) (std_sort losses)) \<and>
     length (probed ?sc) = min (nat maxNumBuckets) (length ?m) \<and>
     (\<forall>i j. i < j \<and> j < length (probed ?sc) \<longrightarrow>
        quantization_loss float_add ?n qb qf (probed ?sc ! i) \<le> quantization_loss float_add ?n qb qf (probed ?sc ! j)) \<and>
     mset (probed ?sc) \<subseteq># mset (map fst ?m) \<and>
     scanned ?sc = concat (map (bucket_of ?m) (probed ?sc))"
    using q b f lt len mono sub
    by (simp add: losses_def [symmetric] ql_def [symmetric] probes_def [symmetric]
        ranked_def [symmetric])
  then show ?thesis by blast
qed




lemma sorts_by_loss_sort_key: "sorts_by_loss (sort_key fst)"
  by (simp add: sorts_by_loss_def)

lemma upt_5: "[0..<5] = [0, 1, 2, 3, 4]"
  by (simp add: upt_rec)

lemma dot_5: "dot [a, b, c, d, e] [p, q, r, s, t] = a * p + b * q + c * r + d * s + e * t"
  by (simp add: dot_def upt_5)

lemma params_hashed5: "L (param hashed5) = 1" "N (param hashed5) = 5" "D (param hashed5) = 5"
  "tables hashed5 = [[(1, [0]), (30, [1])]]"
  by (simp_all add: hashed5_def identity5_def)

lemma hash_in_range_identity5: "hash_in_range identity5 0 [a, b, c, d, e]"
  by (simp add: hash_in_range_def identity5_def unit5_def)

lemma getHashFloats_identity5:
  "getHashFloats identity5 0 [a, b, c, d, e] = Inr [a, b, c, d, e]"
  by (simp add: getHashFloats_def hash_in_range_identity5)
     (simp add: identity5_def unit5_def domin_pc_def getHashFloats_loop_def dot_5 upt_5)

lemma hashed5_ok: "hash identity5 [[-1, -1, -1, -1, 1], [1, 1, 1, 1, -1]] = Inr hashed5"
  by (simp add: hash_def insert_idx_def identity5_def hashed5_def unit5_def getHashVal_def
      hash_in_range_def domin_pc_def dot_5 getHashVal_loop_def upt_5)

lemma trained_hashed5: "trained hashed5"
  by (simp add: trained_def hashed5_def identity5_def unit5_def)

lemma codes_bounded_hashed5: "codes_bounded hashed5"
  by (simp add: codes_bounded_def hashed5_def identity5_def)

lemma binary32_round_large:
  "binary32_round 16777216 = 16777216" "binary32_round 16777217 = 16777216"
  "binary32_round 16777218 = 16777218"
  unfolding binary32_round_def Let_def
  by (simp_all add: quantum_up_numeral round_half_even_def)

lemma binary32_add_large:
  "binary32_add 0 16777216 = 16777216" "binary32_add 16777216 1 = 16777216"
  "binary32_add 0 16777218 = 16777218"
  by (simp_all add: binary32_add_def binary32_round_large)

lemma replicate_5: "replicate 5 x = [x, x, x, x, x]"
  by (simp add: numeral_eq_Suc)

lemma list_update_numeral: "(x # xs)[numeral k := y] = x # xs[pred_numeral k := y]"
  by (simp add: numeral_eq_Suc)

lemma getHashFloats_hashed5: "getHashFloats hashed5 0 [a, b, c, d, e] = Inr [a, b, c, d, e]"
  by (simp add: hashed5_def getHashFloats_identity5)

lemma unsignedToBools_hashed5:
  "unsignedToBools hashed5 1 = Inr [False, False, False, False, True]"
  "unsignedToBools hashed5 30 = Inr [True, True, True, True, False]"
  by (simp_all add: unsignedToBools_def params_hashed5 unsignedToBools_loop.simps
      replicate_5 list_update_numeral)

text \<open>
  The query (2 ^ 24, 1, 1, 1, 2 ^ 24 + 2) has the bits 11111. The bucket 00001 differs at
  the first four positions: in single precision 2 ^ 24 + 1 is 2 ^ 24, so that its loss is
  16777216, below the loss 16777218 of the bucket 11110, and it is probed first. Without
  rounding its loss is 16777219 and it is probed second.
\<close>

lemma loss_table_hashed5:
  "loss_table binary32_add hashed5 [True, True, True, True, True]
     [16777216, 1, 1, 1, 16777218] [(1, [0]), (30, [1])]
     = Inr [(16777216, 1), (16777218, 30)]"
  by (simp add: unsignedToBools_hashed5 loss_loop_def upt_5 binary32_add_large)

lemma loss_table_hashed5_exact:
  "loss_table (+) hashed5 [True, True, True, True, True]
     [16777216, 1, 1, 1, 16777218] [(1, [0]), (30, [1])]
     = Inr [(16777219, 1), (16777218, 30)]"
  by (simp add: unsignedToBools_hashed5 loss_loop_def upt_5)

lemma queryRankingByLoss_hashed5:
  "queryRankingByLoss binary32_add (sort_key fst) hashed5 [16777216, 1, 1, 1, 16777218] 2 =
     Inr \<lparr> probed = [1, 30], scanned = [0, 1] \<rparr>"
  by (simp add: queryRankingByLoss_def queryRankingByLoss_table_def getHashBits_def
      getHashFloats_hashed5 params_hashed5 quantization_def loss_table_hashed5 probe_def
      reset_scanner_def bucket_of_def del: loss_table.simps)

lemma queryRankingByLoss_hashed5_exact:
  "queryRankingByLoss (+) (sort_key fst) hashed5 [16777216, 1, 1, 1, 16777218] 2 =
     Inr \<lparr> probed = [30, 1], scanned = [1, 0] \<rparr>"
  by (simp add: queryRankingByLoss_def queryRankingByLoss_table_def getHashBits_def
      getHashFloats_hashed5 params_hashed5 quantization_def loss_table_hashed5_exact probe_def
      reset_scanner_def bucket_of_def del: loss_table.simps)


theorem C7_queryRankingByLoss_order_witness:
  "sorts_by_loss (sort_key fst) \<and> trained hashed5 \<and> L (param hashed5) = 1 \<and>
   tables hashed5 \<noteq> [] \<and> codes_bounded hashed5 \<and>
   unat (D (param hashed5)) \<le> length [16777216, 1, 1, 1, 16777218 :: float] \<and>
   unat (N (param hashed5)) < 2 ^ 31 \<and>
  (\<exists>sc queryBits queryFloats dstToBks.
     queryRankingByLoss binary32_add (sort_key fst) hashed5 [16777216, 1, 1, 1, 16777218] 2 = Inr sc \<and>
     getHashBits hashed5 0 [16777216, 1, 1, 1, 16777218] = Inr queryBits \<and>
     getHashFloats hashed5 0 [16777216, 1, 1, 1, 16777218] = Inr queryFloats \<and>
     loss_table binary32_add hashed5 queryBits queryFloats (tables hashed5 ! 0) = Inr dstToBks \<and>
     dstToBks = map (\<lambda>(code, ids).
                  (quantization_loss binary32_add (unat (N (param hashed5))) queryBits queryFloats code, code))
                  (tables hashed5 ! 0) \<and>
     probed sc = map snd (take (nat 2) (sort_key fst dstToBks)) \<and>
     length (probed sc) = 2 \<and>
     (\<forall>i j. i < j \<and> j < length (probed sc) \<longrightarrow>
        quantization_loss binary32_add (unat (N (param hashed5))) queryBits queryFloats (probed sc ! i)
          \<le> quantization_loss binary32_add (unat (N (param hashed5))) queryBits queryFloats (probed sc ! j)) \<and>
     mset (probed sc) \<subseteq># mset (map fst (tables hashed5 ! 0)) \<and>
     scanned sc = concat (map (bucket_of (tables hashed5 ! 0)) (probed sc))) \<and>
   queryRankingByLoss binary32_add (sort_key fst) hashed5 [16777216, 1, 1, 1, 16777218] 2 =
     Inr \<lparr> probed = [1, 30], scanned = [0, 1] \<rparr>"
proof -
  have 1: "L (param hashed5) = 1" "tables hashed5 \<noteq> []"
    "unat (D (param hashed5)) \<le> length [16777216, 1, 1, 1, 16777218 :: float]"
    "unat (N (param hashed5)) < 2 ^ 31"
    by (simp_all add: params_hashed5)
  have 2: "min (nat 2) (length (tables hashed5 ! 0)) = 2" by (simp add: params_hashed5)
  from C7_queryRankingByLoss_order [OF sorts_by_loss_sort_key trained_hashed5 1(1,2)
      codes_bounded_hashed5 1(3,4), of binary32_add 2]
    sorts_by_loss_sort_key trained_hashed5 codes_bounded_hashed5 1 queryRankingByLoss_hashed5
  show ?thesis unfolding 2 by simp
qed

end
